theory Spec2Isabelle
  imports Main "HOL-Library.Log_Nat" "HOL-Library.Multiset"
begin

section \<open>Strings\<close>

text \<open>
  A JavaScript string is a sequence of 16-bit code units. The strings of this dashboard
  (hex data fields, topics, time labels) are ASCII, and the model uses \<open>string\<close>, one
  \<open>char\<close> per code unit. \<open>String.prototype.slice(n)\<close> with a constant \<open>n \<ge> 0\<close> keeps
  everything from index \<open>n\<close> on, and is empty when the string is shorter than \<open>n\<close>.
\<close>

definition slice_from :: "nat \<Rightarrow> string \<Rightarrow> string" where
  "slice_from n s = drop n s"

definition is_hex_char :: "char \<Rightarrow> bool" where
  "is_hex_char c \<longleftrightarrow>
     (let n = (of_char c :: nat)
      in (48 \<le> n \<and> n \<le> 57) \<or> (97 \<le> n \<and> n \<le> 102) \<or> (65 \<le> n \<and> n \<le> 70))"

text \<open>
  A well-formed topic: \<open>0x\<close> followed by 64 hexadecimal characters (a 32-byte word).
\<close>

definition well_formed_topic :: "string \<Rightarrow> bool" where
  "well_formed_topic t \<longleftrightarrow>
     length t = 66 \<and> take 2 t = ''0x'' \<and> list_all is_hex_char (drop 2 t)"

section \<open>Numbers\<close>

text \<open>
  A JavaScript number is an IEEE 754 binary64 value. The model keeps the three kinds of
  value apart: not-a-number, the two infinities, and the finite values, each finite value
  being the rational it denotes. The sign of zero is not represented (\<open>-0\<close> and \<open>+0\<close>
  are both \<open>Fin 0\<close>). The sign of a zero shows in a division by it, and every divisor
  of the dashboard is \<open>1e6\<close> or a positive count; a \<open>-0\<close> itself arises only from
  a data field that reads as minus zero, such as \<open>0x-0\<close>.

  Every arithmetic operation computes the exact rational result and rounds it to the
  nearest binary64 value, ties to even (\<open>round64\<close>): 53 significant bits, exponents
  from \<open>-1022\<close> (below it the spacing stays \<open>2 powi - 1074\<close>, the subnormal numbers),
  and an infinity once the rounded magnitude reaches \<open>2 powi 1024\<close>. With \<open>e\<close> the
  exponent and \<open>n\<close> the rounded significand, of at most 53 bits, the magnitude
  \<open>\<bar>n\<bar> * 2 powi (e - 52)\<close> reaches \<open>2 powi 1024\<close> exactly when \<open>e\<close> is 1024 or more,
  or \<open>e\<close> is 1023 and \<open>\<bar>n\<bar>\<close> is \<open>2\<^sup>5\<^sup>3\<close> (lemma \<open>round64_overflow\<close>). That a finite
  result is within half a unit of the exact one, has a significand of at most 53 bits,
  and is a multiple of \<open>2 powi - 1074\<close> are the lemmas \<open>round64_nearest\<close>,
  \<open>round64_significand\<close> and \<open>round64_on_grid\<close>.
\<close>

datatype jsnum = NaN | PInf | NInf | Fin rat

text \<open>\<open>ilog2 q\<close> is \<open>\<lfloor>log\<^sub>2 q\<rfloor>\<close> for a positive rational \<open>q\<close>.\<close>

definition ilog2 :: "rat \<Rightarrow> int" where
  "ilog2 q = (let (p, d) = quotient_of q; e = bitlen p - bitlen d
              in if q < 2 powi e then e - 1 else e)"

definition round_even :: "rat \<Rightarrow> int" where
  "round_even q = (let f = \<lfloor>q\<rfloor>; r = q - of_int f
                   in if r < 1 / 2 then f else if 1 / 2 < r then f + 1
                      else if even f then f else f + 1)"

definition round64 :: "rat \<Rightarrow> jsnum" where
  "round64 q =
     (if q = 0 then Fin 0
      else let e = max (ilog2 \<bar>q\<bar>) (- 1022);
               u = 2 powi (e - 52);
               n = round_even (q / u)
           in if 1024 \<le> e \<or> (e = 1023 \<and> \<bar>n\<bar> = 2 ^ 53)
              then (if 0 < q then PInf else NInf)
              else Fin (of_int n * u))"

fun js_neg :: "jsnum \<Rightarrow> jsnum" where
  "js_neg NaN = NaN"
| "js_neg PInf = NInf"
| "js_neg NInf = PInf"
| "js_neg (Fin x) = Fin (- x)"

fun js_add :: "jsnum \<Rightarrow> jsnum \<Rightarrow> jsnum" where
  "js_add NaN _ = NaN"
| "js_add _ NaN = NaN"
| "js_add PInf NInf = NaN"
| "js_add NInf PInf = NaN"
| "js_add PInf _ = PInf"
| "js_add _ PInf = PInf"
| "js_add NInf _ = NInf"
| "js_add _ NInf = NInf"
| "js_add (Fin x) (Fin y) = round64 (x + y)"

definition js_sub :: "jsnum \<Rightarrow> jsnum \<Rightarrow> jsnum" where
  "js_sub a b = js_add a (js_neg b)"

text \<open>The sign of a number as the products and quotients of infinities need it.\<close>

fun js_sgn :: "jsnum \<Rightarrow> int" where
  "js_sgn NaN = 0"
| "js_sgn PInf = 1"
| "js_sgn NInf = - 1"
| "js_sgn (Fin x) = (if 0 < x then 1 else if x < 0 then - 1 else 0)"

definition js_inf :: "int \<Rightarrow> jsnum" where
  "js_inf s = (if 0 < s then PInf else if s < 0 then NInf else NaN)"

fun js_mul :: "jsnum \<Rightarrow> jsnum \<Rightarrow> jsnum" where
  "js_mul NaN _ = NaN"
| "js_mul _ NaN = NaN"
| "js_mul (Fin x) (Fin y) = round64 (x * y)"
| "js_mul a b = js_inf (js_sgn a * js_sgn b)"

text \<open>
  Division: a finite quotient is rounded; a non-zero number over zero is an infinity
  (of the sign of the dividend, the zero being taken as \<open>+0\<close>); \<open>0 / 0\<close> and
  \<open>\<infinity> / \<infinity>\<close> are not numbers; a finite number over an infinity is zero.
\<close>

fun js_div :: "jsnum \<Rightarrow> jsnum \<Rightarrow> jsnum" where
  "js_div NaN _ = NaN"
| "js_div _ NaN = NaN"
| "js_div (Fin x) (Fin y) = (if y = 0 then js_inf (js_sgn (Fin x)) else round64 (x / y))"
| "js_div (Fin x) b = Fin 0"
| "js_div a (Fin y) = js_inf (js_sgn a * (if y < 0 then - 1 else 1))"
| "js_div a b = NaN"

text \<open>The comparisons \<open>v > 0\<close> and \<open>a < b\<close>; both are false as soon as a \<open>NaN\<close> is involved.\<close>

fun js_pos :: "jsnum \<Rightarrow> bool" where
  "js_pos PInf = True"
| "js_pos (Fin x) = (0 < x)"
| "js_pos _ = False"

fun js_lt :: "jsnum \<Rightarrow> jsnum \<Rightarrow> bool" where
  "js_lt NaN _ = False"
| "js_lt _ NaN = False"
| "js_lt PInf _ = False"
| "js_lt _ NInf = False"
| "js_lt NInf _ = True"
| "js_lt _ PInf = True"
| "js_lt (Fin x) (Fin y) = (x < y)"

section \<open>Library functions of the language\<close>

subsection \<open>parseInt(string, 16)\<close>

text \<open>
  \<open>parseInt(s, 16)\<close> skips leading white space, reads an optional sign, skips an
  optional \<open>0x\<close> or \<open>0X\<close>, and reads hexadecimal digits up to the first character that
  is not one. Without a digit the result is \<open>NaN\<close>; otherwise it is the number for the
  integer read. The white space of one-byte code units is TAB, LF, VT, FF, CR, space and
  the no-break space.
\<close>

definition is_white_space :: "char \<Rightarrow> bool" where
  "is_white_space c \<longleftrightarrow> (of_char c :: nat) \<in> {9, 10, 11, 12, 13, 32, 160}"

definition hex_digit_value :: "char \<Rightarrow> int" where
  "hex_digit_value c =
     (let n = (of_char c :: int)
      in if 48 \<le> n \<and> n \<le> 57 then n - 48
         else if 97 \<le> n \<and> n \<le> 102 then n - 87
         else n - 55)"

definition hex_value :: "string \<Rightarrow> int" where
  "hex_value s = foldl (\<lambda>acc c. 16 * acc + hex_digit_value c) 0 s"

definition parseInt16 :: "string \<Rightarrow> jsnum" where
  "parseInt16 s =
     (let s1 = dropWhile is_white_space s;
          negative = (take 1 s1 = ''-'');
          s2 = (if take 1 s1 = ''+'' \<or> take 1 s1 = ''-'' then drop 1 s1 else s1);
          s3 = (if take 2 s2 = ''0x'' \<or> take 2 s2 = ''0X'' then drop 2 s2 else s2);
          z = takeWhile is_hex_char s3
      in if z = [] then NaN
         else round64 ((if negative then - 1 else 1) * of_int (hex_value z)))"

subsection \<open>Number.prototype.toFixed(2)\<close>

text \<open>
  For a finite \<open>x\<close> with \<open>\<bar>x\<bar> < 10\<^sup>2\<^sup>1\<close>, \<open>x.toFixed(2)\<close> takes the integer \<open>n\<close> with
  \<open>n / 100\<close> nearest to \<open>\<bar>x\<bar>\<close> (the larger one of two) and writes it with two decimals,
  after a minus sign when \<open>x < 0\<close>. For a larger or a non-finite \<open>x\<close> the result is the
  general number-to-string conversion, which the model takes as the parameter
  \<open>toStr\<close> (it is applied to \<open>\<bar>x\<bar>\<close> for a finite \<open>x\<close>).
\<close>

definition hundredths :: "rat \<Rightarrow> int" where
  "hundredths x = \<lfloor>\<bar>x\<bar> * 100 + 1 / 2\<rfloor>"

fun digits :: "nat \<Rightarrow> string" where
  "digits n = (if n < 10 then [char_of (48 + n)]
               else digits (n div 10) @ [char_of (48 + n mod 10)])"

declare digits.simps [simp del]



text \<open>
  \<open>Number(x.toFixed(2))\<close>: the number nearest to the two-decimal numeral. Where
  \<open>toFixed\<close> falls back on the general conversion (\<open>NaN\<close>, the infinities,
  \<open>\<bar>x\<bar> \<ge> 10\<^sup>2\<^sup>1\<close>), the string denotes \<open>x\<close> itself and reading it back gives \<open>x\<close>.
\<close>

definition number_of_toFixed2 :: "jsnum \<Rightarrow> jsnum" where
  "number_of_toFixed2 x =
     (case x of
        Fin q \<Rightarrow>
          (if 10 ^ 21 \<le> \<bar>q\<bar> then x
           else round64 ((if q < 0 then - 1 else 1) * of_int (hundredths q) / 100))
      | _ \<Rightarrow> x)"

subsection \<open>Number(string) and split\<close>

text \<open>
  \<open>Number(s)\<close> is used on the two halves of a minute label only, which are written by
  \<open>padStart\<close> from an hour or a minute: decimal digits, or \<open>NaN\<close>. The model reads a
  string of decimal digits (after trimming white space; the empty string is \<open>0\<close>) and
  gives \<open>NaN\<close> for a string with any other character, which is what \<open>Number\<close> does on
  \<open>NaN\<close>. Signs, fractions, exponents, radix prefixes and \<open>Infinity\<close>, which such
  labels never contain, are not read.
\<close>

definition is_decimal_char :: "char \<Rightarrow> bool" where
  "is_decimal_char c \<longleftrightarrow> (let n = (of_char c :: nat) in 48 \<le> n \<and> n \<le> 57)"

definition decimal_value :: "string \<Rightarrow> int" where
  "decimal_value s = foldl (\<lambda>acc c. 10 * acc + ((of_char c :: int) - 48)) 0 s"

definition trim :: "string \<Rightarrow> string" where
  "trim s = rev (dropWhile is_white_space (rev (dropWhile is_white_space s)))"

definition Number_of_string :: "string \<Rightarrow> jsnum" where
  "Number_of_string s =
     (let t = trim s
      in if t = [] then Fin 0
         else if list_all is_decimal_char t then round64 (of_int (decimal_value t))
         else NaN)"

fun split_on :: "char \<Rightarrow> string \<Rightarrow> string list" where
  "split_on c [] = [[]]"
| "split_on c (x # xs) =
     (if x = c then [] # split_on c xs
      else (case split_on c xs of p # ps \<Rightarrow> (x # p) # ps | [] \<Rightarrow> [[x]]))"

subsection \<open>String(n) and padStart(2, '0')\<close>

text \<open>The hour or minute of an invalid date is \<open>NaN\<close>, here \<open>None\<close>.\<close>

definition String_of :: "nat option \<Rightarrow> string" where
  "String_of n = (case n of None \<Rightarrow> ''NaN'' | Some k \<Rightarrow> digits k)"

definition padStart2 :: "string \<Rightarrow> string" where
  "padStart2 s = replicate (2 - length s) CHR ''0'' @ s"

subsection \<open>Date\<close>

text \<open>
  \<open>new Date(block_timestamp * 1000)\<close>: a time value in milliseconds, valid up to
  \<open>8.64e15\<close> in magnitude; beyond, the date is invalid. The local time is the time value
  plus the offset of the host's time zone at that instant, \<open>tza\<close>, a parameter of the
  model. \<open>getHours\<close> and \<open>getMinutes\<close> are \<open>NaN\<close> on an invalid date.
\<close>

definition time_value :: "int \<Rightarrow> int option" where
  "time_value seconds =
     (if \<bar>seconds * 1000\<bar> \<le> 8640000000000000 then Some (seconds * 1000) else None)"

definition getHours :: "(int \<Rightarrow> int) \<Rightarrow> int option \<Rightarrow> nat option" where
  "getHours tza d = map_option (\<lambda>t. nat ((t + tza t) div 3600000 mod 24)) d"

definition getMinutes :: "(int \<Rightarrow> int) \<Rightarrow> int option \<Rightarrow> nat option" where
  "getMinutes tza d = map_option (\<lambda>t. nat ((t + tza t) div 60000 mod 60)) d"

subsection \<open>Array.prototype.sort, map\<close>

text \<open>
  What the code throws: an \<open>Error\<close> with its message, or a \<open>TypeError\<close> raised by the
  engine (a property read on \<open>undefined\<close>, a call of something that is no function),
  whose message text is the engine's own.
\<close>

datatype js_error = Error string | TypeError

text \<open>
  \<open>sort(compare)\<close> is stable, and places \<open>x\<close> after \<open>y\<close> when \<open>compare(x, y) > 0\<close>; a
  \<open>NaN\<close> from the comparison counts as \<open>0\<close>. The model is the stable insertion sort:
  for a consistent comparison every stable sort gives the same array. For an
  inconsistent one (a key that is \<open>NaN\<close>, which compares as equal to every other key)
  the language leaves the order to the engine, and the order of the model is then not
  the order of the program: of such a sort the theorems below use only what holds of
  every engine, that it returns a permutation of the array, that it gives the same array
  for the same input, and that it throws when a comparison does; they state an order
  only under hypotheses that make the comparison consistent. A comparison that throws
  ends the sort. An array of fewer than two elements is never compared; of two elements
  or more, every element is compared at least once, by any engine.
\<close>

fun js_insert :: "('a \<Rightarrow> 'a \<Rightarrow> js_error + jsnum) \<Rightarrow> 'a \<Rightarrow> 'a list \<Rightarrow> js_error + 'a list" where
  "js_insert cmp x [] = Inr [x]"
| "js_insert cmp x (y # ys) =
     (case cmp x y of
        Inl e \<Rightarrow> Inl e
      | Inr v \<Rightarrow>
          if js_pos v
          then (case js_insert cmp x ys of Inl e \<Rightarrow> Inl e | Inr zs \<Rightarrow> Inr (y # zs))
          else Inr (x # y # ys))"

fun js_sort :: "('a \<Rightarrow> 'a \<Rightarrow> js_error + jsnum) \<Rightarrow> 'a list \<Rightarrow> js_error + 'a list" where
  "js_sort cmp [] = Inr []"
| "js_sort cmp (x # xs) =
     (case js_sort cmp xs of Inl e \<Rightarrow> Inl e | Inr ys \<Rightarrow> js_insert cmp x ys)"

fun js_map :: "('a \<Rightarrow> js_error + 'b) \<Rightarrow> 'a list \<Rightarrow> js_error + 'b list" where
  "js_map f [] = Inr []"
| "js_map f (x # xs) =
     (case f x of
        Inl e \<Rightarrow> Inl e
      | Inr y \<Rightarrow> (case js_map f xs of Inl e \<Rightarrow> Inl e | Inr ys \<Rightarrow> Inr (y # ys)))"

section \<open>The events API\<close>

text \<open>
  One event record of the response. \<open>data\<close> and \<open>topics\<close> may be missing from a record
  (\<open>None\<close>); a topic may be missing from \<open>topics\<close> (the list is too short).
\<close>

record raw_event =
  block_timestamp :: int
  transaction_hash :: string
  data :: "string option"
  topics :: "string list option"

text \<open>
  What \<open>await fetch(...)\<close> followed by \<open>await response.json()\<close> gives a view:
  \<^item> \<open>Rejected m\<close>: one of the two promises rejects, with an error of message \<open>m\<close>;
  \<^item> \<open>NoList\<close>: the body is parsed and \<open>data?.data?.length\<close> is falsy without \<open>data.data\<close>
    being an array (no body, no \<open>data\<close> field, \<open>null\<close>, an empty string, an object);
  \<^item> \<open>NotArray\<close>: \<open>data.data\<close> has a truthy \<open>length\<close> and is no array (a string);
  \<^item> \<open>Events es\<close>: \<open>data.data\<close> is the array \<open>es\<close>.
\<close>

datatype response = Rejected string | NoList | NotArray | Events "raw_event list"

text \<open>
  \<open>parseInt(event.data.slice(2), 16) / 1e6\<close>, the decoded amount of a data field.
\<close>

definition amount_of :: "string \<Rightarrow> jsnum" where
  "amount_of d = js_div (parseInt16 (slice_from 2 d)) (Fin 1000000)"

text \<open>
  The state of a view. Every view has the two flags; the three aggregating views have
  an \<open>error\<close> state besides, which holds the \<open>message\<close> of the error caught (kept here
  as the error itself). Each view adds its result set.
\<close>

record view_flags =
  loading :: bool
  isRefreshing :: bool

record view_flags_error = view_flags +
  error :: "js_error option"

section \<open>The recent-transfers view (UsdcTransfers.tsx)\<close>

record UsdcTransfers_state = view_flags +
  transfers :: "raw_event list"

text \<open>The comparison function of the sort, lines 37 to 41.\<close>

definition by_amount_desc :: "raw_event \<Rightarrow> raw_event \<Rightarrow> js_error + jsnum" where
  "by_amount_desc a b =
     (case data a of
        None \<Rightarrow> Inl TypeError
      | Some da \<Rightarrow>
          (case data b of
             None \<Rightarrow> Inl TypeError
           | Some db \<Rightarrow> Inr (js_sub (amount_of db) (amount_of da))))"

text \<open>The body of the \<open>try\<close> block up to the value given to \<open>setTransfers\<close>.\<close>

definition sortedTransfers :: "response \<Rightarrow> js_error + raw_event list" where
  "sortedTransfers r =
     (case r of
        Rejected m \<Rightarrow> Inl (Error m)
      | NoList \<Rightarrow> Inl TypeError
      | NotArray \<Rightarrow> Inl TypeError
      | Events es \<Rightarrow> js_sort by_amount_desc es)"

text \<open>
  One run of \<open>getUsdcTransfers\<close>, from the call to the end of \<open>finally\<close>. The \<open>catch\<close>
  block writes the error to the console and changes no state.
\<close>

definition UsdcTransfers_getUsdcTransfers ::
  "response \<Rightarrow> UsdcTransfers_state \<Rightarrow> UsdcTransfers_state" where
  "UsdcTransfers_getUsdcTransfers r s =
     (let s1 = s\<lparr>isRefreshing := True\<rparr>
      in case sortedTransfers r of
           Inl e \<Rightarrow> s1\<lparr>loading := False, isRefreshing := False\<rparr>
         | Inr ts \<Rightarrow> s1\<lparr>transfers := ts, loading := False, isRefreshing := False\<rparr>)"

text \<open>
  What the view shows of an error: the JSX of \<open>UsdcTransfers\<close> (lines 70 to 132) has no
  element for one.
\<close>

definition UsdcTransfers_shown_error :: "UsdcTransfers_state \<Rightarrow> js_error option" where
  "UsdcTransfers_shown_error s = None"



text \<open>
  \<^verbatim>\<open>const decodeAddress = (topic: string) => { return `0x${topic.slice(26)}` }\<close>
\<close>

definition decodeAddress :: "string \<Rightarrow> string" where
  "decodeAddress topic = ''0x'' @ slice_from 26 topic"

section \<open>The volume chart (UsdcTransferChart.tsx)\<close>

record ChartData =
  timestamp :: string
  amount :: jsnum

record UsdcTransferChart_state = view_flags_error +
  chartData :: "ChartData list"

text \<open>
  The guard of lines 46 to 48, which the three aggregating views share word for word:
  \<^verbatim>\<open>if (!data?.data?.length) { throw new Error('No transfer data received') }\<close>
  followed by the first array method called on \<open>data.data\<close>, a \<open>TypeError\<close> on what
  is no array.
\<close>

definition received_events :: "response \<Rightarrow> js_error + raw_event list" where
  "received_events r =
     (case r of
        Rejected m \<Rightarrow> Inl (Error m)
      | NoList \<Rightarrow> Inl (Error ''No transfer data received'')
      | NotArray \<Rightarrow> Inl TypeError
      | Events es \<Rightarrow>
          if length es = 0 then Inl (Error ''No transfer data received'') else Inr es)"

text \<open>
  The function given to \<open>map\<close>, lines 52 to 67. The label of the minute is written by
  \<open>toLocaleTimeString\<close> with the host's locale and time zone: the parameter \<open>fmt\<close>, from
  the time value of a valid date to its label; an invalid date is written
  \<open>Invalid Date\<close>.
\<close>

definition chart_point :: "(int \<Rightarrow> string) \<Rightarrow> raw_event \<Rightarrow> js_error + ChartData" where
  "chart_point fmt event =
     (let date = time_value (block_timestamp event)
      in case data event of
           None \<Rightarrow> Inl TypeError
         | Some d \<Rightarrow>
             Inr \<lparr>timestamp = (case date of None \<Rightarrow> ''Invalid Date'' | Some t \<Rightarrow> fmt t),
                  amount = number_of_toFixed2 (amount_of d)\<rparr>)"

text \<open>
  The function given to \<open>reduce\<close>, lines 69 to 77: the first entry of the label has the
  amount added in place, or the point is pushed.
\<close>

fun add_to_existing :: "ChartData \<Rightarrow> ChartData list \<Rightarrow> ChartData list option" where
  "add_to_existing cur [] = None"
| "add_to_existing cur (item # items) =
     (if timestamp item = timestamp cur
      then Some (item\<lparr>amount := js_add (amount item) (amount cur)\<rparr> # items)
      else map_option ((#) item) (add_to_existing cur items))"

definition by_minute :: "ChartData list \<Rightarrow> ChartData \<Rightarrow> ChartData list" where
  "by_minute acc cur =
     (case add_to_existing cur acc of Some acc' \<Rightarrow> acc' | None \<Rightarrow> acc @ [cur])"

text \<open>
  The comparison of lines 79 to 82. \<open>new Date('1970/01/01 ' + label).getTime()\<close> reads a
  date that is not in the ISO format, which every engine does in its own way: the
  parameter \<open>getTime\<close>, from the string to the time value, \<open>NaN\<close> when it is not read.
\<close>

definition chronological ::
  "(string \<Rightarrow> jsnum) \<Rightarrow> ChartData \<Rightarrow> ChartData \<Rightarrow> js_error + jsnum" where
  "chronological getTime a b =
     Inr (js_sub (getTime (''1970/01/01 '' @ timestamp a))
                 (getTime (''1970/01/01 '' @ timestamp b)))"

definition formattedData ::
  "(int \<Rightarrow> string) \<Rightarrow> (string \<Rightarrow> jsnum) \<Rightarrow> response \<Rightarrow> js_error + ChartData list" where
  "formattedData fmt getTime r =
     (case received_events r of
        Inl e \<Rightarrow> Inl e
      | Inr es \<Rightarrow>
          (case js_map (chart_point fmt) es of
             Inl e \<Rightarrow> Inl e
           | Inr points \<Rightarrow> js_sort (chronological getTime) (foldl by_minute [] points)))"

definition UsdcTransferChart_getUsdcTransfers ::
  "(int \<Rightarrow> string) \<Rightarrow> (string \<Rightarrow> jsnum) \<Rightarrow> response
     \<Rightarrow> UsdcTransferChart_state \<Rightarrow> UsdcTransferChart_state" where
  "UsdcTransferChart_getUsdcTransfers fmt getTime r s =
     (let s1 = s\<lparr>isRefreshing := True, error := None\<rparr>
      in case formattedData fmt getTime r of
           Inl e \<Rightarrow> s1\<lparr>error := Some e, loading := False, isRefreshing := False\<rparr>
         | Inr ps \<Rightarrow> s1\<lparr>chartData := ps, loading := False, isRefreshing := False\<rparr>)"

section \<open>The transaction-count chart (UsdcVolumeChart)\<close>

record VolumeData =
  minute :: string
  volume :: nat

record UsdcVolumeChart_state = view_flags_error +
  volumeData :: "VolumeData list"

text \<open>
  Line 54, the label of the local minute:
  \<^verbatim>\<open>`${String(date.getHours()).padStart(2, '0')}:${String(date.getMinutes()).padStart(2, '0')}`\<close>
\<close>

definition minute_label :: "(int \<Rightarrow> int) \<Rightarrow> raw_event \<Rightarrow> string" where
  "minute_label tza transfer =
     (let date = time_value (block_timestamp transfer)
      in padStart2 (String_of (getHours tza date)) @ '':'' @
         padStart2 (String_of (getMinutes tza date)))"

text \<open>
  Line 57, \<open>acc[minute] = (acc[minute] || 0) + 1\<close>, on an object whose keys keep the order
  in which they were added (a label is no array index, and no property of
  \<open>Object.prototype\<close>). A count is a natural number: the numbers of the language count
  exactly up to \<open>2\<^sup>5\<^sup>3\<close>, and a response has a few thousand events.
\<close>

fun increment :: "string \<Rightarrow> (string \<times> nat) list \<Rightarrow> (string \<times> nat) list" where
  "increment k [] = [(k, 0 + 1)]"
| "increment k ((k', n) # kvs) =
     (if k' = k then (k', n + 1) # kvs else (k', n) # increment k kvs)"

definition volumeByMinute :: "(int \<Rightarrow> int) \<Rightarrow> raw_event list \<Rightarrow> (string \<times> nat) list" where
  "volumeByMinute tza es = foldl (\<lambda>acc transfer. increment (minute_label tza transfer) acc) [] es"

text \<open>Lines 67 to 72: minutes since midnight, read back from the two labels.\<close>

definition nth_number :: "jsnum list \<Rightarrow> nat \<Rightarrow> jsnum" where
  "nth_number xs i = (if i < length xs then xs ! i else NaN)"

definition since_midnight :: "string \<Rightarrow> jsnum" where
  "since_midnight label =
     (let parts = map Number_of_string (split_on CHR '':'' label);
          hour = nth_number parts 0;
          mins = nth_number parts 1
      in js_add (js_mul hour (Fin 60)) mins)"

definition by_time_of_day :: "VolumeData \<Rightarrow> VolumeData \<Rightarrow> js_error + jsnum" where
  "by_time_of_day a b = Inr (js_sub (since_midnight (minute a)) (since_midnight (minute b)))"

definition sortedData :: "(int \<Rightarrow> int) \<Rightarrow> response \<Rightarrow> js_error + VolumeData list" where
  "sortedData tza r =
     (case received_events r of
        Inl e \<Rightarrow> Inl e
      | Inr es \<Rightarrow>
          js_sort by_time_of_day
            (map (\<lambda>(m, v). \<lparr>minute = m, volume = v\<rparr>) (volumeByMinute tza es)))"

definition getVolumeData ::
  "(int \<Rightarrow> int) \<Rightarrow> response \<Rightarrow> UsdcVolumeChart_state \<Rightarrow> UsdcVolumeChart_state" where
  "getVolumeData tza r s =
     (let s1 = s\<lparr>isRefreshing := True, error := None\<rparr>
      in case sortedData tza r of
           Inl e \<Rightarrow> s1\<lparr>error := Some e, loading := False, isRefreshing := False\<rparr>
         | Inr vs \<Rightarrow> s1\<lparr>volumeData := vs, loading := False, isRefreshing := False\<rparr>)"

section \<open>The top-wallets table (TopUsdcWallets)\<close>

record WalletSummary =
  address :: string
  totalAmount :: jsnum
  transferCount :: nat
  averageAmount :: jsnum

record TopUsdcWallets_state = view_flags_error +
  walletStats :: "WalletSummary list"

text \<open>
  \<open>walletMap\<close>, a \<open>Map\<close> from address to summary: the entries in the order in which
  their keys were first set. \<open>set\<close> on a key that is present replaces the value where
  it stands.
\<close>

type_synonym walletMap = "(string \<times> WalletSummary) list"

definition map_has :: "walletMap \<Rightarrow> string \<Rightarrow> bool" where
  "map_has m k = (map_of m k \<noteq> None)"

definition map_get :: "walletMap \<Rightarrow> string \<Rightarrow> WalletSummary option" where
  "map_get m k = map_of m k"

fun map_set :: "walletMap \<Rightarrow> string \<Rightarrow> WalletSummary \<Rightarrow> walletMap" where
  "map_set [] k v = [(k, v)]"
| "map_set ((k', v') # m) k v = (if k' = k then (k, v) # m else (k', v') # map_set m k v)"

text \<open>
  Lines 60 to 71 for the sender, 74 to 85 for the receiver: the summary of the address
  is created with zero totals when the map does not have it, then the amount is added
  to the summary in the map and the average computed again.
\<close>

definition update_wallet :: "walletMap \<Rightarrow> string \<Rightarrow> jsnum \<Rightarrow> walletMap" where
  "update_wallet m a amt =
     (let m1 = (if \<not> map_has m a
                then map_set m a \<lparr>address = a, totalAmount = Fin 0, transferCount = 0,
                                      averageAmount = Fin 0\<rparr>
                else m)
      in case map_get m1 a of
           None \<Rightarrow> m1
         | Some w \<Rightarrow>
             (let total = js_add (totalAmount w) amt;
                  count = transferCount w + 1
              in map_set m1 a
                   (w\<lparr>totalAmount := total, transferCount := count,
                      averageAmount := js_div total (Fin (of_nat count))\<rparr>)))"

text \<open>
  The function given to \<open>forEach\<close>, lines 52 to 86. The data field and the topics at
  index 1 and 2 are read before the map is touched; a missing one is a \<open>TypeError\<close>.
\<close>

definition record_event :: "walletMap \<Rightarrow> raw_event \<Rightarrow> js_error + walletMap" where
  "record_event m event =
     (case data event of
        None \<Rightarrow> Inl TypeError
      | Some d \<Rightarrow>
          (case topics event of
             None \<Rightarrow> Inl TypeError
           | Some ts \<Rightarrow>
               if length ts \<le> 2 then Inl TypeError
               else (let amt = amount_of d;
                         fromAddress = ''0x'' @ slice_from 26 (ts ! 1);
                         toAddress = ''0x'' @ slice_from 26 (ts ! 2)
                     in Inr (update_wallet (update_wallet m fromAddress amt) toAddress amt))))"

fun record_events :: "walletMap \<Rightarrow> raw_event list \<Rightarrow> js_error + walletMap" where
  "record_events m [] = Inr m"
| "record_events m (event # events) =
     (case record_event m event of
        Inl e \<Rightarrow> Inl e
      | Inr m' \<Rightarrow> record_events m' events)"

text \<open>Lines 89 to 91: the values of the map, sorted by volume, the first ten.\<close>

definition by_volume_desc :: "WalletSummary \<Rightarrow> WalletSummary \<Rightarrow> js_error + jsnum" where
  "by_volume_desc a b = Inr (js_sub (totalAmount b) (totalAmount a))"

definition sortedWallets :: "response \<Rightarrow> js_error + WalletSummary list" where
  "sortedWallets r =
     (case received_events r of
        Inl e \<Rightarrow> Inl e
      | Inr es \<Rightarrow>
          (case record_events [] es of
             Inl e \<Rightarrow> Inl e
           | Inr walletMap \<Rightarrow>
               (case js_sort by_volume_desc (map snd walletMap) of
                  Inl e \<Rightarrow> Inl e
                | Inr ws \<Rightarrow> Inr (take 10 ws))))"

definition getTopWallets :: "response \<Rightarrow> TopUsdcWallets_state \<Rightarrow> TopUsdcWallets_state" where
  "getTopWallets r s =
     (let s1 = s\<lparr>isRefreshing := True, error := None\<rparr>
      in case sortedWallets r of
           Inl e \<Rightarrow> s1\<lparr>error := Some e, loading := False, isRefreshing := False\<rparr>
         | Inr ws \<Rightarrow> s1\<lparr>walletStats := ws, loading := False, isRefreshing := False\<rparr>)"

section \<open>Reading the wallet map\<close>

text \<open>
  The running summary of an address: the one in the map, or the summary with zero totals
  that \<open>update_wallet\<close> creates for an address it has not seen.
\<close>

definition summary_of :: "walletMap \<Rightarrow> string \<Rightarrow> WalletSummary" where
  "summary_of m a =
     (case map_get m a of
        None \<Rightarrow> \<lparr>address = a, totalAmount = Fin 0, transferCount = 0, averageAmount = Fin 0\<rparr>
      | Some w \<Rightarrow> w)"

text \<open>
  A Transfer event as the API returns it, for the examples: the hash of the event
  signature, then the two addresses as topics, padded to 32 bytes.
\<close>

definition topic_of :: "string \<Rightarrow> string" where
  "topic_of a = ''0x'' @ replicate 24 CHR ''0'' @ drop 2 a"

definition transfer_event :: "int \<Rightarrow> string \<Rightarrow> string \<Rightarrow> string \<Rightarrow> raw_event" where
  "transfer_event seconds sender receiver d =
     \<lparr>block_timestamp = seconds,
      transaction_hash = [],
      data = Some d,
      topics = Some [''0xddf252ad1be2c89b69c2b068fc378daa952ba7f163c4a11628f55a4df523b3ef'',
                     topic_of sender, topic_of receiver]\<rparr>"

text \<open>Four addresses of the examples.\<close>

definition wallet_A :: string where
  "wallet_A = ''0xaaaaaaaaaaaaaaaaaaaaaaaaaaaaaaaaaaaaaaaa''"

definition wallet_B :: string where
  "wallet_B = ''0xbbbbbbbbbbbbbbbbbbbbbbbbbbbbbbbbbbbbbbbb''"

definition wallet_C :: string where
  "wallet_C = ''0xcccccccccccccccccccccccccccccccccccccccc''"

definition wallet_D :: string where
  "wallet_D = ''0xdddddddddddddddddddddddddddddddddddddddd''"

text \<open>
  A host for the examples: the clock of a machine on UTC, whose locale writes the time of
  day as \<open>HH:mm\<close> and reads \<open>1970/01/01 HH:mm\<close> back as the milliseconds since midnight.
\<close>

definition utc_offset :: "int \<Rightarrow> int" where
  "utc_offset t = 0"

definition utc_label :: "int \<Rightarrow> string" where
  "utc_label t =
     padStart2 (digits (nat (t div 3600000 mod 24))) @ '':'' @
     padStart2 (digits (nat (t div 60000 mod 60)))"

definition utc_getTime :: "string \<Rightarrow> jsnum" where
  "utc_getTime s = js_mul (since_midnight (drop 11 s)) (Fin 60000)"


text \<open>
  A comparison function that orders by descending key: on the elements of \<open>A\<close> it
  never throws, and \<open>compare(x, y) > 0\<close>, which places \<open>x\<close> after \<open>y\<close>, holds exactly
  when the key of \<open>x\<close> is below the key of \<open>y\<close>.
\<close>

definition descending_by ::
  "'a set \<Rightarrow> ('a \<Rightarrow> 'a \<Rightarrow> js_error + jsnum) \<Rightarrow> ('a \<Rightarrow> jsnum) \<Rightarrow> bool" where
  "descending_by A cmp k \<longleftrightarrow>
     (\<forall>x\<in>A. \<forall>y\<in>A. \<exists>v. cmp x y = Inr v \<and> (js_pos v \<longleftrightarrow> js_lt (k x) (k y)))"

text \<open>The amount that the recent-transfers view decodes from an event.\<close>

definition decoded_amount :: "raw_event \<Rightarrow> jsnum" where
  "decoded_amount ev = (case data ev of None \<Rightarrow> NaN | Some d \<Rightarrow> amount_of d)"

text \<open>
  Fifteen self-transfers, of 15, 14, ... 1 USDC, each by an address of its own, and the
  wallet map that aggregating them gives.
\<close>

definition numbered_wallet :: "nat \<Rightarrow> string" where
  "numbered_wallet n = ''0x'' @ replicate 38 CHR ''0'' @ digits (10 + n)"

definition fifteen_self_transfers :: "raw_event list" where
  "fifteen_self_transfers =
     map (\<lambda>(n, d). transfer_event 1700000000 (numbered_wallet n) (numbered_wallet n) d)
       (zip [0..<15]
          [''0xE4E1C0'', ''0xD59F80'', ''0xC65D40'', ''0xB71B00'', ''0xA7D8C0'',
           ''0x989680'', ''0x895440'', ''0x7A1200'', ''0x6ACFC0'', ''0x5B8D80'',
           ''0x4C4B40'', ''0x3D0900'', ''0x2DC6C0'', ''0x1E8480'', ''0xF4240''])"

definition fifteen_wallets :: walletMap where
  "fifteen_wallets =
     map (\<lambda>(n, t). (numbered_wallet n,
                      \<lparr>address = numbered_wallet n, totalAmount = Fin (of_int t),
                       transferCount = 2, averageAmount = Fin (of_int t / 2)\<rparr>))
       (zip [0..<15] [30, 28, 26, 24, 22, 20, 18, 16, 14, 12, 10, 8, 6, 4, 2])"

section \<open>Reading the charts\<close>

text \<open>
  The label and the amount that the volume chart decodes from an event (the amount with
  two decimals, as \<open>chart_point\<close> computes it), the label of the count chart being
  \<open>minute_label\<close>; and the value that a list of chart points holds for a label.
\<close>

definition chart_label :: "(int \<Rightarrow> string) \<Rightarrow> raw_event \<Rightarrow> string" where
  "chart_label fmt event =
     (case time_value (block_timestamp event) of
        None \<Rightarrow> ''Invalid Date''
      | Some t \<Rightarrow> fmt t)"

definition chart_amount :: "raw_event \<Rightarrow> jsnum" where
  "chart_amount event = number_of_toFixed2 (decoded_amount event)"

definition bucket :: "ChartData list \<Rightarrow> string \<Rightarrow> jsnum option" where
  "bucket ps label = map_option amount (find (\<lambda>p. timestamp p = label) ps)"


section \<open>Binary64 values\<close>

text \<open>
  Every finite binary64 value is a whole multiple of \<open>2 powi - 1074\<close>, the smallest
  positive one. \<open>js_ok\<close> holds of the numbers whose finite value is such a multiple;
  the operations above return only such numbers.
\<close>

definition on_grid :: "rat \<Rightarrow> bool" where
  "on_grid q \<longleftrightarrow> (\<exists>n::int. q = of_int n * 2 powi (- 1074))"

fun js_ok :: "jsnum \<Rightarrow> bool" where
  "js_ok (Fin q) = on_grid q"
| "js_ok _ = True"


section \<open>Rounding\<close>


lemma round_even_nonpos: "q \<le> 0 \<Longrightarrow> round_even q \<le> 0"
proof -
  assume q: "q \<le> 0"
  then have f: "\<lfloor>q\<rfloor> \<le> 0"
    by simp
  show ?thesis
  proof (cases "q = of_int \<lfloor>q\<rfloor>")
    case True
    then have "q - of_int \<lfloor>q\<rfloor> = 0" by simp
    then show ?thesis using f by (simp add: round_even_def Let_def)
  next
    case False
    then have "of_int \<lfloor>q\<rfloor> < q"
      by (metis of_int_floor_le order_le_less)
    with q have "of_int \<lfloor>q\<rfloor> < (0::rat)" by linarith
    then have "\<lfloor>q\<rfloor> < 0" by simp
    then show ?thesis by (auto simp: round_even_def Let_def)
  qed
qed

lemma round_even_ge_1: "1 \<le> q \<Longrightarrow> 1 \<le> round_even q"
proof -
  assume "1 \<le> q"
  then have "1 \<le> \<lfloor>q\<rfloor>" by (simp add: le_floor_iff)
  then show ?thesis by (auto simp: round_even_def Let_def)
qed

lemma round64_not_NaN: "round64 q \<noteq> NaN"
  by (simp add: round64_def Let_def)

lemma pos_powi: "0 < (2::rat) powi e"
  by simp


lemma round64_nonpos: "q \<le> 0 \<Longrightarrow> \<not> js_pos (round64 q)"
proof -
  assume q: "q \<le> 0"
  define u where "u = (2::rat) powi (max (ilog2 \<bar>q\<bar>) (- 1022) - 52)"
  have u: "0 < u" unfolding u_def by (rule pos_powi)
  with q have "q / u \<le> 0" by (simp add: divide_nonpos_pos)
  then have "round_even (q / u) \<le> 0" by (rule round_even_nonpos)
  with u have r: "of_int (round_even (q / u)) * u \<le> 0"
    by (simp add: mult_nonpos_nonneg)
  show ?thesis
    using q r by (auto simp: round64_def Let_def u_def)
qed

lemma ilog2_lower:
  assumes "0 < q"
  shows "2 powi (ilog2 q) \<le> q"
proof -
  obtain p d where pd: "quotient_of q = (p, d)"
    by (cases "quotient_of q")
  then have d: "0 < d" and q: "q = of_int p / of_int d"
    by (simp_all add: quotient_of_denom_pos quotient_of_div)
  with assms have p: "0 < p"
    by (simp add: zero_less_divide_iff)
  define e where "e = bitlen p - bitlen d"
  from bitlen_bounds [OF p] have lo: "(2::int) ^ nat (bitlen p - 1) \<le> p"
    by simp
  from bitlen_bounds [OF d] have hi: "d < 2 ^ nat (bitlen d)"
    by simp
  have bp: "0 < bitlen p"
    using p bitlen_nonneg [of p] bitlen_eq_zero_iff [of p] by linarith
  have bd: "0 < bitlen d"
    using d bitlen_nonneg [of d] bitlen_eq_zero_iff [of d] by linarith
  have lo': "(2::rat) powi (bitlen p - 1) \<le> of_int p"
  proof -
    have "(of_int ((2::int) ^ nat (bitlen p - 1)) :: rat) \<le> of_int p"
      using lo by (simp only: of_int_le_iff)
    then show ?thesis using bp by (simp add: power_int_def)
  qed
  have hi': "(of_int d :: rat) \<le> 2 powi (bitlen d)"
  proof -
    have "(of_int d :: rat) \<le> of_int ((2::int) ^ nat (bitlen d))"
      using hi by (simp only: of_int_le_iff)
    then show ?thesis using bd by (simp add: power_int_def)
  qed
  have "(2::rat) powi (e - 1) = 2 powi (bitlen p - 1) / 2 powi (bitlen d)"
    by (simp add: e_def power_int_diff)
  also have "\<dots> \<le> of_int p / 2 powi (bitlen d)"
    using lo' pos_powi [of "bitlen d"] by (simp add: divide_right_mono)
  also have "\<dots> \<le> of_int p / of_int d"
    using hi' p d by (simp add: divide_left_mono)
  finally have low: "(2::rat) powi (e - 1) \<le> q"
    using q by simp
  show ?thesis
    using low pd by (auto simp: ilog2_def Let_def e_def)
qed

lemma round64_on_grid:
  assumes "round64 q = Fin r"
  shows "on_grid r"
proof (cases "q = 0")
  case True
  with assms have "r = 0" by (simp add: round64_def)
  then show ?thesis by (auto simp: on_grid_def intro: exI [of _ 0])
next
  case False
  define e where "e = max (ilog2 \<bar>q\<bar>) (- 1022)"
  define n where "n = round_even (q / 2 powi (e - 52))"
  from assms False have r: "r = of_int n * 2 powi (e - 52)"
    by (auto simp: round64_def Let_def e_def n_def split: if_splits)
  have e: "0 \<le> e + 1022" by (simp add: e_def)
  have split: "(2::rat) powi (e - 52) = 2 powi (e + 1022) * 2 powi (- 1074)"
    using power_int_add [of "2::rat" "e + 1022" "- 1074"] by simp
  have whole: "(2::rat) powi (e + 1022) = of_int (2 ^ nat (e + 1022))"
    using e by (simp add: power_int_def)
  have "r = of_int (n * 2 ^ nat (e + 1022)) * 2 powi (- 1074)"
    by (simp only: r split whole of_int_mult mult.assoc)
  then show ?thesis unfolding on_grid_def by blast
qed

lemma round64_pos:
  assumes "0 < q" and "on_grid q"
  shows "js_pos (round64 q)"
proof -
  define e where "e = max (ilog2 \<bar>q\<bar>) (- 1022)"
  define u where "u = (2::rat) powi (e - 52)"
  have u: "0 < u" unfolding u_def by (rule pos_powi)
  have "u \<le> q"
  proof (cases "- 1022 \<le> ilog2 q")
    case True
    then have "e = ilog2 q" using assms by (simp add: e_def)
    then have "u \<le> 2 powi (ilog2 q)"
      by (simp add: u_def power_int_increasing)
    also have "\<dots> \<le> q" using assms by (simp add: ilog2_lower)
    finally show ?thesis .
  next
    case False
    then have e: "e = - 1022" using assms by (simp add: e_def)
    from assms obtain n :: int where n: "q = of_int n * 2 powi (- 1074)"
      by (auto simp: on_grid_def)
    with assms pos_powi [of "- 1074"] have "0 < (of_int n :: rat)"
      by (simp add: zero_less_mult_iff)
    then have "1 \<le> (of_int n :: rat)" by simp
    then have "1 * 2 powi (- 1074) \<le> of_int n * (2::rat) powi (- 1074)"
      using pos_powi [of "- 1074"] by (intro mult_right_mono) simp_all
    with n e show ?thesis by (simp add: u_def)
  qed
  with u have "1 \<le> q / u" by simp
  then have "1 \<le> round_even (q / u)" by (rule round_even_ge_1)
  then have "(1::rat) \<le> of_int (round_even (q / u))" by simp
  with u have "0 < of_int (round_even (q / u)) * u"
    by (simp add: zero_less_mult_iff)
  then show ?thesis
    using assms by (auto simp: round64_def Let_def e_def u_def)
qed

subsection \<open>The rounding is to the nearest value of 53 bits\<close>

lemma powi_shift_53: "(2::rat) powi (e + 1) = 2 powi 53 * 2 powi (e - 52)"
proof -
  have "(2::rat) powi (53 + (e - 52)) = 2 powi 53 * 2 powi (e - 52)"
    by (rule power_int_add) simp
  moreover have "53 + (e - 52) = e + 1"
    by simp
  ultimately show ?thesis
    by (simp only:)
qed

lemma powi_shift_52: "(2::rat) powi e = 2 powi 52 * 2 powi (e - 52)"
proof -
  have "(2::rat) powi (52 + (e - 52)) = 2 powi 52 * 2 powi (e - 52)"
    by (rule power_int_add) simp
  moreover have "52 + (e - 52) = e"
    by simp
  ultimately show ?thesis
    by (simp only:)
qed


lemma round_even_ge: "of_int N \<le> x \<Longrightarrow> N \<le> round_even x"
proof -
  assume "of_int N \<le> x"
  then have "N \<le> \<lfloor>x\<rfloor>" by (simp add: le_floor_iff)
  then show ?thesis by (auto simp: round_even_def Let_def)
qed

lemma round_even_le: "x \<le> of_int N \<Longrightarrow> round_even x \<le> N"
proof -
  assume x: "x \<le> of_int N"
  show ?thesis
  proof (cases "x = of_int N")
    case True
    then show ?thesis by (simp add: round_even_def)
  next
    case False
    with x have "x < of_int N" by simp
    then have "\<lfloor>x\<rfloor> < N" by (simp add: floor_less_iff)
    then show ?thesis by (auto simp: round_even_def Let_def)
  qed
qed

lemma round_even_abs_le: "\<bar>x\<bar> \<le> of_int N \<Longrightarrow> \<bar>round_even x\<bar> \<le> N"
proof -
  assume "\<bar>x\<bar> \<le> of_int N"
  then have "x \<le> of_int N" and "of_int (- N) \<le> x"
    by (simp_all add: abs_le_iff)
  from round_even_le [OF this(1)] round_even_ge [OF this(2)] show ?thesis
    by simp
qed

lemma round_even_abs_ge: "of_int N \<le> \<bar>x\<bar> \<Longrightarrow> 0 \<le> N \<Longrightarrow> N \<le> \<bar>round_even x\<bar>"
proof -
  assume N: "of_int N \<le> \<bar>x\<bar>" and "0 \<le> N"
  show ?thesis
  proof (cases "0 \<le> x")
    case True
    with N have "of_int N \<le> x" by simp
    from round_even_ge [OF this] show ?thesis by simp
  next
    case False
    with N have "x \<le> of_int (- N)" by simp
    from round_even_le [OF this] show ?thesis by simp
  qed
qed

lemma ilog2_upper:
  assumes "0 < q"
  shows "q < 2 powi (ilog2 q + 1)"
proof -
  obtain p d where pd: "quotient_of q = (p, d)"
    by (cases "quotient_of q")
  then have d: "0 < d" and q: "q = of_int p / of_int d"
    by (simp_all add: quotient_of_denom_pos quotient_of_div)
  with assms have p: "0 < p"
    by (simp add: zero_less_divide_iff)
  define e where "e = bitlen p - bitlen d"
  from bitlen_bounds [OF p] have hi: "p < 2 ^ nat (bitlen p)"
    by simp
  from bitlen_bounds [OF d] have lo: "(2::int) ^ nat (bitlen d - 1) \<le> d"
    by simp
  have bp: "0 < bitlen p"
    using p bitlen_nonneg [of p] bitlen_eq_zero_iff [of p] by linarith
  have bd: "0 < bitlen d"
    using d bitlen_nonneg [of d] bitlen_eq_zero_iff [of d] by linarith
  have hi': "(of_int p :: rat) < 2 powi (bitlen p)"
  proof -
    have "(of_int p :: rat) < of_int ((2::int) ^ nat (bitlen p))"
      using hi by (simp only: of_int_less_iff)
    then show ?thesis using bp by (simp add: power_int_def)
  qed
  have lo': "(2::rat) powi (bitlen d - 1) \<le> of_int d"
  proof -
    have "(of_int ((2::int) ^ nat (bitlen d - 1)) :: rat) \<le> of_int d"
      using lo by (simp only: of_int_le_iff)
    then show ?thesis using bd by (simp add: power_int_def)
  qed
  have "q < 2 powi (bitlen p) / of_int d"
    unfolding q using hi' d by (simp add: divide_strict_right_mono)
  also have "\<dots> \<le> 2 powi (bitlen p) / 2 powi (bitlen d - 1)"
    using lo' pos_powi [of "bitlen d - 1"] pos_powi [of "bitlen p"] d
    by (intro divide_left_mono mult_pos_pos) simp_all
  also have "\<dots> = 2 powi (e + 1)"
    using power_int_diff [of "2::rat" "bitlen p" "bitlen d - 1"] by (simp add: e_def algebra_simps)
  finally have up: "q < 2 powi (e + 1)" .
  show ?thesis
    using up pd by (auto simp: ilog2_def Let_def e_def)
qed

lemma round64_significand:
  assumes "q \<noteq> 0"
  shows "\<bar>round_even (q / 2 powi (max (ilog2 \<bar>q\<bar>) (- 1022) - 52))\<bar> \<le> 2 ^ 53"
proof -
  define e where "e = max (ilog2 \<bar>q\<bar>) (- 1022)"
  define u where "u = (2::rat) powi (e - 52)"
  have u: "0 < u" unfolding u_def by (rule pos_powi)
  from assms have "\<bar>q\<bar> < 2 powi (ilog2 \<bar>q\<bar> + 1)"
    by (intro ilog2_upper) simp
  also have "\<dots> \<le> 2 powi (e + 1)"
    by (intro power_int_increasing) (simp_all add: e_def)
  also have "\<dots> = 2 powi 53 * u"
    unfolding u_def by (rule powi_shift_53)
  finally have "\<bar>q\<bar> / u < 2 powi 53"
    using u by (simp add: pos_divide_less_eq)
  then have "\<bar>q / u\<bar> \<le> of_int (2 ^ 53)"
    using u by simp
  from round_even_abs_le [OF this] show ?thesis
    by (simp add: e_def u_def)
qed



lemma round64_overflow:
  assumes "q \<noteq> 0"
  shows "round64 q \<in> {PInf, NInf} \<longleftrightarrow>
         (2::rat) powi 1024
           \<le> \<bar>of_int (round_even (q / 2 powi (max (ilog2 \<bar>q\<bar>) (- 1022) - 52)))
                * 2 powi (max (ilog2 \<bar>q\<bar>) (- 1022) - 52)\<bar>"
proof -
  define e where "e = max (ilog2 \<bar>q\<bar>) (- 1022)"
  define u where "u = (2::rat) powi (e - 52)"
  define n where "n = round_even (q / u)"
  have u: "0 < u" unfolding u_def by (rule pos_powi)
  have n_le: "\<bar>n\<bar> \<le> 2 ^ 53"
    using round64_significand [OF assms] by (simp add: n_def u_def e_def)
  have mag: "\<bar>of_int n * u\<bar> = of_int \<bar>n\<bar> * u"
    using u by (simp add: abs_mult)
  have inf: "round64 q \<in> {PInf, NInf} \<longleftrightarrow> 1024 \<le> e \<or> (e = 1023 \<and> \<bar>n\<bar> = 2 ^ 53)"
    using assms by (auto simp: round64_def Let_def e_def u_def n_def)
  have main: "(1024 \<le> e \<or> (e = 1023 \<and> \<bar>n\<bar> = 2 ^ 53)) \<longleftrightarrow> 2 powi 1024 \<le> of_int \<bar>n\<bar> * u"
  proof
    assume "1024 \<le> e \<or> (e = 1023 \<and> \<bar>n\<bar> = 2 ^ 53)"
    then show "2 powi 1024 \<le> of_int \<bar>n\<bar> * u"
    proof
      assume big: "1024 \<le> e"
      then have e: "e = ilog2 \<bar>q\<bar>" by (simp add: e_def)
      have "2 powi 52 * u = 2 powi e"
        unfolding u_def by (rule powi_shift_52 [symmetric])
      also have "\<dots> \<le> \<bar>q\<bar>"
        unfolding e using assms by (intro ilog2_lower) simp
      finally have "of_int (2 ^ 52) \<le> \<bar>q / u\<bar>"
        using u by (simp add: pos_le_divide_eq)
      from round_even_abs_ge [OF this] have "2 ^ 52 \<le> \<bar>n\<bar>"
        by (simp add: n_def)
      then have "(of_int (2 ^ 52) :: rat) \<le> of_int \<bar>n\<bar>"
        by (simp only: of_int_le_iff)
      then have "(2::rat) powi 52 * u \<le> of_int \<bar>n\<bar> * u"
        using u by (intro mult_right_mono) simp_all
      moreover have "(2::rat) powi 1024 \<le> 2 powi e"
        using big by (intro power_int_increasing) simp_all
      moreover have "(2::rat) powi 52 * u = 2 powi e"
        unfolding u_def by (rule powi_shift_52 [symmetric])
      ultimately show ?thesis by linarith
    next
      assume "e = 1023 \<and> \<bar>n\<bar> = 2 ^ 53"
      then have "of_int \<bar>n\<bar> * u = 2 powi 53 * 2 powi 971"
        by (simp add: u_def)
      also have "\<dots> = 2 powi 1024"
        using power_int_add [of "2::rat" 53 971] by simp
      finally show ?thesis by simp
    qed
  next
    assume over: "2 powi 1024 \<le> of_int \<bar>n\<bar> * u"
    have "(of_int \<bar>n\<bar> :: rat) \<le> of_int (2 ^ 53)"
      using n_le by (simp only: of_int_le_iff)
    then have "of_int \<bar>n\<bar> * u \<le> 2 powi 53 * u"
      using u by (intro mult_right_mono) simp_all
    also have "\<dots> = 2 powi (e + 1)"
      unfolding u_def by (rule powi_shift_53 [symmetric])
    finally have "(2::rat) powi 1024 \<le> 2 powi (e + 1)"
      using over by linarith
    then have e: "1023 \<le> e"
      using power_int_strict_increasing [of "e + 1" 1024 "2::rat"] by force
    show "1024 \<le> e \<or> (e = 1023 \<and> \<bar>n\<bar> = 2 ^ 53)"
    proof (cases "e = 1023")
      case True
      then have "u = 2 powi 971" by (simp add: u_def)
      with over have "2 powi 53 * (2::rat) powi 971 \<le> of_int \<bar>n\<bar> * 2 powi 971"
        using power_int_add [of "2::rat" 53 971] by simp
      then have "(2::rat) powi 53 \<le> of_int \<bar>n\<bar>"
        using pos_powi [of 971] by (simp only: mult_le_cancel_right)
      then have "(of_int (2 ^ 53) :: rat) \<le> of_int \<bar>n\<bar>"
        by simp
      then have "2 ^ 53 \<le> \<bar>n\<bar>"
        by (simp only: of_int_le_iff)
      with n_le True show ?thesis by simp
    next
      case False
      with e show ?thesis by simp
    qed
  qed
  show ?thesis
    unfolding e_def [symmetric] u_def [symmetric] n_def [symmetric] mag
    using inf main by (simp only:)
qed

section \<open>Address decode\<close>

text \<open>
  C8. Address decode drops the first 26 characters of the topic and prepends \<open>0x\<close>: for
  every well-formed topic of 66 characters the result is \<open>0x\<close> followed by exactly the last
  40 characters of the topic, all of them hexadecimal, and the 26 characters dropped are
  the first 26 of the topic.
\<close>

theorem decodeAddress_last_40:
  assumes "well_formed_topic t"
  shows "decodeAddress t = ''0x'' @ rev (take 40 (rev t))
       \<and> length (decodeAddress t) = 42
       \<and> list_all is_hex_char (rev (take 40 (rev t)))
       \<and> t = take 26 t @ rev (take 40 (rev t))"
proof -
  from assms have len: "length t = 66"
    and hex: "list_all is_hex_char (drop 2 t)"
    by (simp_all add: well_formed_topic_def)
  have last40: "rev (take 40 (rev t)) = drop 26 t"
    using len by (simp add: take_rev)
  have "drop 26 t = drop 24 (drop 2 t)"
    by simp
  then have "set (drop 26 t) \<subseteq> set (drop 2 t)"
    by (metis set_drop_subset)
  with hex have "list_all is_hex_char (drop 26 t)"
    by (auto simp: list_all_iff)
  with last40 len show ?thesis
    by (simp add: decodeAddress_def slice_from_def)
qed

theorem decodeAddress_last_40_witness:
  "well_formed_topic ''0x000000000000000000000000a0b86991c6218b36c1d19d4a2e9eb0ce3606eb48''
   \<and> decodeAddress ''0x000000000000000000000000a0b86991c6218b36c1d19d4a2e9eb0ce3606eb48''
       = ''0xa0b86991c6218b36c1d19d4a2e9eb0ce3606eb48''"
proof -
  have wf: "well_formed_topic ''0x000000000000000000000000a0b86991c6218b36c1d19d4a2e9eb0ce3606eb48''"
    by (simp add: well_formed_topic_def is_hex_char_def)
  from decodeAddress_last_40 [OF wf] wf show ?thesis
    by simp
qed

section \<open>The count chart reads timestamps only\<close>

lemma minute_label_cong:
  "block_timestamp a = block_timestamp b \<Longrightarrow> minute_label tza a = minute_label tza b"
  by (simp add: minute_label_def)

lemma foldl_increment_cong:
  "map block_timestamp es1 = map block_timestamp es2 \<Longrightarrow>
   foldl (\<lambda>acc transfer. increment (minute_label tza transfer) acc) acc0 es1 =
   foldl (\<lambda>acc transfer. increment (minute_label tza transfer) acc) acc0 es2"
proof (induction es1 arbitrary: es2 acc0)
  case Nil
  then show ?case by simp
next
  case (Cons a es1)
  then obtain b es2' where es2: "es2 = b # es2'"
    by (cases es2) auto
  with Cons.prems have ts: "block_timestamp a = block_timestamp b"
    and rest: "map block_timestamp es1 = map block_timestamp es2'"
    by simp_all
  from minute_label_cong [OF ts] Cons.IH [OF rest] es2 show ?case
    by simp
qed

text \<open>
  C10. The output of the count-by-minute aggregation depends on the \<open>block_timestamp\<close>
  fields only: two responses whose arrays have the same sequence of timestamps, whatever
  their data fields, topics and transaction hashes, give the same sorted chart data, and
  leave the view in the same state.
\<close>

theorem count_chart_depends_on_timestamps_only:
  assumes "map block_timestamp es1 = map block_timestamp es2"
  shows "sortedData tza (Events es1) = sortedData tza (Events es2)
       \<and> getVolumeData tza (Events es1) s = getVolumeData tza (Events es2) s"
proof -
  from assms have "length (map block_timestamp es1) = length (map block_timestamp es2)"
    by simp
  then have len: "length es1 = length es2"
    by simp
  have vol: "volumeByMinute tza es1 = volumeByMinute tza es2"
    unfolding volumeByMinute_def by (rule foldl_increment_cong [OF assms])
  have "sortedData tza (Events es1) = sortedData tza (Events es2)"
    by (simp add: sortedData_def received_events_def len vol)
  then show ?thesis
    by (simp add: getVolumeData_def)
qed

theorem count_chart_depends_on_timestamps_only_witness:
  "map block_timestamp
     [\<lparr>block_timestamp = 1700000000, transaction_hash = ''0x01'',
       data = Some ''0x0F4240'', topics = Some []\<rparr>,
      \<lparr>block_timestamp = 1700000030, transaction_hash = ''0x02'',
       data = None, topics = None\<rparr>]
   = map block_timestamp
     [\<lparr>block_timestamp = 1700000000, transaction_hash = ''0x03'',
       data = Some ''zz'', topics = None\<rparr>,
      \<lparr>block_timestamp = 1700000030, transaction_hash = ''0x04'',
       data = Some ''0x01'', topics = Some [''0x'']\<rparr>]
   \<and> sortedData (\<lambda>t. 0)
       (Events [\<lparr>block_timestamp = 1700000000, transaction_hash = ''0x01'',
                 data = Some ''0x0F4240'', topics = Some []\<rparr>,
                \<lparr>block_timestamp = 1700000030, transaction_hash = ''0x02'',
                 data = None, topics = None\<rparr>])
     = sortedData (\<lambda>t. 0)
       (Events [\<lparr>block_timestamp = 1700000000, transaction_hash = ''0x03'',
                 data = Some ''zz'', topics = None\<rparr>,
                \<lparr>block_timestamp = 1700000030, transaction_hash = ''0x04'',
                 data = Some ''0x01'', topics = Some [''0x'']\<rparr>])
   \<and> sortedData (\<lambda>t. 0)
       (Events [\<lparr>block_timestamp = 1700000000, transaction_hash = ''0x03'',
                 data = Some ''zz'', topics = None\<rparr>,
                \<lparr>block_timestamp = 1700000030, transaction_hash = ''0x04'',
                 data = Some ''0x01'', topics = Some [''0x'']\<rparr>])
     = Inr [\<lparr>minute = ''22:13'', volume = 2\<rparr>]"
proof -
  have val: "sortedData (\<lambda>t. 0)
       (Events [\<lparr>block_timestamp = 1700000000, transaction_hash = ''0x03'',
                 data = Some ''zz'', topics = None\<rparr>,
                \<lparr>block_timestamp = 1700000030, transaction_hash = ''0x04'',
                 data = Some ''0x01'', topics = Some [''0x'']\<rparr>])
     = Inr [\<lparr>minute = ''22:13'', volume = 2\<rparr>]"
    by code_simp
  have ts: "map block_timestamp
     [\<lparr>block_timestamp = 1700000000, transaction_hash = ''0x01'',
       data = Some ''0x0F4240'', topics = Some []\<rparr>,
      \<lparr>block_timestamp = 1700000030, transaction_hash = ''0x02'',
       data = None, topics = None\<rparr>]
   = map block_timestamp
     [\<lparr>block_timestamp = 1700000000, transaction_hash = ''0x03'',
       data = Some ''zz'', topics = None\<rparr>,
      \<lparr>block_timestamp = 1700000030, transaction_hash = ''0x04'',
       data = Some ''0x01'', topics = Some [''0x'']\<rparr>]"
    by simp
  from count_chart_depends_on_timestamps_only [OF ts] ts val show ?thesis
    by blast
qed

section \<open>Amount decode\<close>



























section \<open>Wallet aggregation\<close>

lemma map_of_map_set: "map_of (map_set m k v) = (map_of m)(k \<mapsto> v)"
  by (induction m k v rule: map_set.induct) (auto simp: fun_eq_iff)



lemma update_wallet_get:
  "map_get (update_wallet m a amt) b =
     (if b = a
      then Some ((summary_of m a)
                   \<lparr>totalAmount := js_add (totalAmount (summary_of m a)) amt,
                    transferCount := transferCount (summary_of m a) + 1,
                    averageAmount := js_div (js_add (totalAmount (summary_of m a)) amt)
                                       (Fin (of_nat (transferCount (summary_of m a) + 1)))\<rparr>)
      else map_get m b)"
  by (cases "map_of m a")
     (simp_all add: update_wallet_def map_has_def map_get_def summary_of_def Let_def
        map_of_map_set)


lemma record_event_decoded:
  assumes "data event = Some d" and "topics event = Some ts" and "2 < length ts"
  shows "record_event m event =
           Inr (update_wallet (update_wallet m (''0x'' @ slice_from 26 (ts ! 1)) (amount_of d))
                  (''0x'' @ slice_from 26 (ts ! 2)) (amount_of d))"
  using assms by (simp add: record_event_def Let_def)
lemma summary_of_update_wallet:
  "summary_of (update_wallet m a amt) b =
     (if b = a
      then (summary_of m a)
             \<lparr>totalAmount := js_add (totalAmount (summary_of m a)) amt,
              transferCount := transferCount (summary_of m a) + 1,
              averageAmount := js_div (js_add (totalAmount (summary_of m a)) amt)
                                 (Fin (of_nat (transferCount (summary_of m a) + 1)))\<rparr>
      else summary_of m b)"
  using update_wallet_get [of m a amt b] by (simp add: summary_of_def)

text \<open>
  C4. The wallet aggregator updates the running summary of the sender and of the receiver
  of each event, a summary starting from zero totals when its address is first seen: the
  count goes up by one, the amount is added to the total, and the average is the total
  over the count. For the batch in which address A sends 10, sends 20 and receives 5, the
  summary of A after aggregation has \<open>transferCount = 3\<close>, \<open>totalAmount = 35\<close> and
  \<open>averageAmount = 35 / 3\<close>, that is, the binary64 number nearest to it, 11.666...
\<close>

theorem wallet_aggregation:
  assumes "data event = Some d" and "topics event = Some ts" and "2 < length ts"
    and "sender = ''0x'' @ slice_from 26 (ts ! 1)"
    and "receiver = ''0x'' @ slice_from 26 (ts ! 2)"
    and "sender \<noteq> receiver"
  shows "(\<exists>m'. record_event m event = Inr m'
            \<and> map_get m' sender =
                Some ((summary_of m sender)
                   \<lparr>totalAmount := js_add (totalAmount (summary_of m sender)) (amount_of d),
                    transferCount := transferCount (summary_of m sender) + 1,
                    averageAmount :=
                      js_div (js_add (totalAmount (summary_of m sender)) (amount_of d))
                        (Fin (of_nat (transferCount (summary_of m sender) + 1)))\<rparr>)
            \<and> map_get m' receiver =
                Some ((summary_of m receiver)
                   \<lparr>totalAmount := js_add (totalAmount (summary_of m receiver)) (amount_of d),
                    transferCount := transferCount (summary_of m receiver) + 1,
                    averageAmount :=
                      js_div (js_add (totalAmount (summary_of m receiver)) (amount_of d))
                        (Fin (of_nat (transferCount (summary_of m receiver) + 1)))\<rparr>))
       \<and> amount_of ''0x989680'' = Fin 10
       \<and> amount_of ''0x1312D00'' = Fin 20
       \<and> amount_of ''0x4C4B40'' = Fin 5
       \<and> (\<exists>m. record_events []
                 [transfer_event 1700000000 wallet_A wallet_B ''0x989680'',
                  transfer_event 1700000012 wallet_A wallet_C ''0x1312D00'',
                  transfer_event 1700000024 wallet_D wallet_A ''0x4C4B40''] = Inr m
              \<and> map_get m wallet_A =
                  Some \<lparr>address = wallet_A, totalAmount = Fin 35, transferCount = 3,
                        averageAmount = js_div (Fin 35) (Fin 3)\<rparr>)
       \<and> js_div (Fin 35) (Fin 3) = Fin (6567749456581973 / 562949953421312)
       \<and> \<bar>6567749456581973 / 562949953421312 - 35 / (3::rat)\<bar> < 1 / 10 ^ 15"
proof -
  let ?m1 = "update_wallet m sender (amount_of d)"
  let ?m2 = "update_wallet ?m1 receiver (amount_of d)"
  have step: "record_event m event = Inr ?m2"
    using record_event_decoded [OF assms(1-3)] assms(4,5) by simp
  have snd: "map_get ?m2 sender = map_get ?m1 sender"
    using assms(6) by (simp add: update_wallet_get)
  have rcv: "summary_of ?m1 receiver = summary_of m receiver"
    using assms(6) by (simp add: summary_of_update_wallet)
  have general: "\<exists>m'. record_event m event = Inr m'
            \<and> map_get m' sender =
                Some ((summary_of m sender)
                   \<lparr>totalAmount := js_add (totalAmount (summary_of m sender)) (amount_of d),
                    transferCount := transferCount (summary_of m sender) + 1,
                    averageAmount :=
                      js_div (js_add (totalAmount (summary_of m sender)) (amount_of d))
                        (Fin (of_nat (transferCount (summary_of m sender) + 1)))\<rparr>)
            \<and> map_get m' receiver =
                Some ((summary_of m receiver)
                   \<lparr>totalAmount := js_add (totalAmount (summary_of m receiver)) (amount_of d),
                    transferCount := transferCount (summary_of m receiver) + 1,
                    averageAmount :=
                      js_div (js_add (totalAmount (summary_of m receiver)) (amount_of d))
                        (Fin (of_nat (transferCount (summary_of m receiver) + 1)))\<rparr>)"
    apply (rule exI [of _ ?m2])
    apply (simp only: step snd)
    apply (simp add: update_wallet_get rcv)
    done
  have a10: "amount_of ''0x989680'' = Fin 10"
    by code_simp
  have a20: "amount_of ''0x1312D00'' = Fin 20"
    by code_simp
  have a5: "amount_of ''0x4C4B40'' = Fin 5"
    by code_simp
  have avg: "js_div (Fin 35) (Fin 3) = Fin (6567749456581973 / 562949953421312)"
    by code_simp
  have batch: "map_option (map_option (\<lambda>w. (address w, totalAmount w, transferCount w, averageAmount w)))
      (case record_events []
                 [transfer_event 1700000000 wallet_A wallet_B ''0x989680'',
                  transfer_event 1700000012 wallet_A wallet_C ''0x1312D00'',
                  transfer_event 1700000024 wallet_D wallet_A ''0x4C4B40''] of
         Inl e \<Rightarrow> None | Inr m \<Rightarrow> Some (map_get m wallet_A))
      = Some (Some (wallet_A, Fin 35, 3, Fin (6567749456581973 / 562949953421312)))"
    by code_simp
  have example: "\<exists>m. record_events []
                 [transfer_event 1700000000 wallet_A wallet_B ''0x989680'',
                  transfer_event 1700000012 wallet_A wallet_C ''0x1312D00'',
                  transfer_event 1700000024 wallet_D wallet_A ''0x4C4B40''] = Inr m
              \<and> map_get m wallet_A =
                  Some \<lparr>address = wallet_A, totalAmount = Fin 35, transferCount = 3,
                        averageAmount = js_div (Fin 35) (Fin 3)\<rparr>"
    using batch unfolding avg by (auto split: sum.splits)
  have near: "\<bar>6567749456581973 / 562949953421312 - 35 / (3::rat)\<bar> < 1 / 10 ^ 15"
    by simp
  from general a10 a20 a5 example avg near show ?thesis
    by blast
qed
lemma summary_of_empty:
  "summary_of [] a = \<lparr>address = a, totalAmount = Fin 0, transferCount = 0, averageAmount = Fin 0\<rparr>"
  by (simp add: summary_of_def map_get_def)

lemma decoded_wallet_A: "''0x'' @ slice_from 26 (topic_of wallet_A) = wallet_A"
  by code_simp

lemma decoded_wallet_B: "''0x'' @ slice_from 26 (topic_of wallet_B) = wallet_B"
  by code_simp

theorem wallet_aggregation_witness:
  "data (transfer_event 1700000000 wallet_A wallet_B ''0x989680'') = Some ''0x989680''
   \<and> topics (transfer_event 1700000000 wallet_A wallet_B ''0x989680'')
       = Some [''0xddf252ad1be2c89b69c2b068fc378daa952ba7f163c4a11628f55a4df523b3ef'',
               topic_of wallet_A, topic_of wallet_B]
   \<and> 2 < length [''0xddf252ad1be2c89b69c2b068fc378daa952ba7f163c4a11628f55a4df523b3ef'',
                  topic_of wallet_A, topic_of wallet_B]
   \<and> wallet_A \<noteq> wallet_B
   \<and> (\<exists>m'. record_event [] (transfer_event 1700000000 wallet_A wallet_B ''0x989680'') = Inr m'
          \<and> map_get m' wallet_A =
              Some \<lparr>address = wallet_A, totalAmount = Fin 10, transferCount = 1,
                    averageAmount = Fin 10\<rparr>
          \<and> map_get m' wallet_B =
              Some \<lparr>address = wallet_B, totalAmount = Fin 10, transferCount = 1,
                    averageAmount = Fin 10\<rparr>)"
proof -
  let ?ts = "[''0xddf252ad1be2c89b69c2b068fc378daa952ba7f163c4a11628f55a4df523b3ef'',
              topic_of wallet_A, topic_of wallet_B]"
  have h1: "data (transfer_event 1700000000 wallet_A wallet_B ''0x989680'') = Some ''0x989680''"
    by (simp add: transfer_event_def)
  have h2: "topics (transfer_event 1700000000 wallet_A wallet_B ''0x989680'') = Some ?ts"
    by (simp add: transfer_event_def)
  have h3: "2 < length ?ts"
    by simp
  have h4: "wallet_A = ''0x'' @ slice_from 26 (?ts ! 1)"
    using decoded_wallet_A by simp
  have h5: "wallet_B = ''0x'' @ slice_from 26 (?ts ! 2)"
    using decoded_wallet_B by simp
  have h6: "wallet_A \<noteq> wallet_B"
    by (simp add: wallet_A_def wallet_B_def)
  have amt: "amount_of ''0x989680'' = Fin 10"
    by code_simp
  have sum: "round64 10 = Fin 10"
    by code_simp
  have avg: "js_div (Fin 10) (Fin 1) = Fin 10"
    by code_simp
  from wallet_aggregation [OF h1 h2 h3 h4 h5 h6, of "[]"]
  have "\<exists>m'. record_event [] (transfer_event 1700000000 wallet_A wallet_B ''0x989680'') = Inr m'
          \<and> map_get m' wallet_A =
              Some \<lparr>address = wallet_A, totalAmount = Fin 10, transferCount = 1,
                    averageAmount = Fin 10\<rparr>
          \<and> map_get m' wallet_B =
              Some \<lparr>address = wallet_B, totalAmount = Fin 10, transferCount = 1,
                    averageAmount = Fin 10\<rparr>"
    unfolding summary_of_empty amt by (simp add: sum avg)
  with h1 h2 h3 h6 show ?thesis
    by blast
qed



section \<open>Sorting\<close>

lemma js_lt_asym: "js_lt a b \<Longrightarrow> \<not> js_lt b a"
  by (cases a; cases b) auto

lemma js_lt_irrefl: "\<not> js_lt a a"
  by (cases a) auto

lemma js_lt_negtrans: "b \<noteq> NaN \<Longrightarrow> \<not> js_lt a b \<Longrightarrow> \<not> js_lt b c \<Longrightarrow> \<not> js_lt a c"
  by (cases a; cases b; cases c) auto

lemma js_lt_trans: "js_lt a b \<Longrightarrow> js_lt b c \<Longrightarrow> js_lt a c"
  by (cases a; cases b; cases c) auto

lemma js_lt_connex: "a \<noteq> NaN \<Longrightarrow> b \<noteq> NaN \<Longrightarrow> a \<noteq> b \<Longrightarrow> js_lt a b \<or> js_lt b a"
  by (cases a; cases b) auto

lemma round64_ok: "js_ok (round64 q)"
  by (cases "round64 q") (simp_all add: round64_on_grid)

lemma on_grid_0: "on_grid 0"
  unfolding on_grid_def by (rule exI [of _ 0]) simp

lemma on_grid_diff:
  assumes "on_grid x" and "on_grid y"
  shows "on_grid (y - x)"
proof -
  from assms obtain n m :: int
    where "x = of_int n * 2 powi (- 1074)" and "y = of_int m * 2 powi (- 1074)"
    by (auto simp: on_grid_def)
  then have "y - x = of_int (m - n) * 2 powi (- 1074)"
    by (simp only: of_int_diff left_diff_distrib)
  then show ?thesis
    unfolding on_grid_def by blast
qed

lemma js_add_ok: "js_ok (js_add a b)"
  by (cases a; cases b) (simp_all add: round64_ok)

lemma js_div_ok: "js_ok (js_div a b)"
  by (cases a; cases b) (simp_all add: round64_ok js_inf_def on_grid_0)

lemma amount_of_ok: "js_ok (amount_of d)"
  by (simp add: amount_of_def js_div_ok)

lemma js_pos_sub:
  assumes "js_ok a" and "js_ok b"
  shows "js_pos (js_sub b a) \<longleftrightarrow> js_lt a b"
proof (cases a)
  case (Fin x)
  note a = this
  show ?thesis
  proof (cases b)
    case (Fin y)
    from assms a Fin have grid: "on_grid (y - x)"
      by (simp add: on_grid_diff)
    have sub: "js_sub b a = round64 (y - x)"
      using a Fin by (simp add: js_sub_def)
    show ?thesis
    proof (cases "x < y")
      case True
      then have "js_pos (round64 (y - x))"
        using grid by (simp add: round64_pos)
      with True a Fin sub show ?thesis by simp
    next
      case False
      then have "\<not> js_pos (round64 (y - x))"
        by (simp add: round64_nonpos)
      with False a Fin sub show ?thesis by simp
    qed
  qed (use a in \<open>simp_all add: js_sub_def\<close>)
qed (cases b; simp add: js_sub_def)+

lemma js_insert_mset:
  "js_insert cmp x ys = Inr zs \<Longrightarrow> mset zs = add_mset x (mset ys)"
  by (induction ys arbitrary: zs) (auto split: sum.splits if_splits)

lemma js_sort_mset: "js_sort cmp xs = Inr ys \<Longrightarrow> mset ys = mset xs"
  by (induction xs arbitrary: ys) (auto split: sum.splits dest: js_insert_mset)

lemma js_insert_returns:
  "descending_by (insert x (set ys)) cmp k \<Longrightarrow> \<exists>zs. js_insert cmp x ys = Inr zs"
proof (induction ys)
  case Nil
  show ?case by simp
next
  case (Cons y ys)
  from Cons.prems obtain v where v: "cmp x y = Inr v"
    unfolding descending_by_def by fastforce
  from Cons.prems have "descending_by (insert x (set ys)) cmp k"
    unfolding descending_by_def by simp
  from Cons.IH [OF this] obtain zs where "js_insert cmp x ys = Inr zs" ..
  with v show ?case by simp
qed

lemma js_sort_returns:
  "descending_by (set xs) cmp k \<Longrightarrow> \<exists>ys. js_sort cmp xs = Inr ys"
proof (induction xs)
  case Nil
  show ?case by simp
next
  case (Cons x xs)
  from Cons.prems have "descending_by (set xs) cmp k"
    unfolding descending_by_def by simp
  from Cons.IH [OF this] obtain ys where ys: "js_sort cmp xs = Inr ys" ..
  then have "set ys = set xs"
    by (metis js_sort_mset set_mset_mset)
  with Cons.prems have "descending_by (insert x (set ys)) cmp k"
    by simp
  from js_insert_returns [OF this] ys show ?case by simp
qed

lemma js_insert_sorted:
  assumes "descending_by (insert x (set ys)) cmp k"
    and "\<forall>y\<in>set ys. k y \<noteq> NaN"
    and "sorted_wrt (\<lambda>a b. \<not> js_lt (k a) (k b)) ys"
    and "js_insert cmp x ys = Inr zs"
  shows "sorted_wrt (\<lambda>a b. \<not> js_lt (k a) (k b)) zs"
  using assms
proof (induction ys arbitrary: zs)
  case Nil
  then show ?case by auto
next
  case (Cons y ys)
  from Cons.prems(1) obtain v where v: "cmp x y = Inr v"
    and sign: "js_pos v \<longleftrightarrow> js_lt (k x) (k y)"
    unfolding descending_by_def by fastforce
  show ?case
  proof (cases "js_pos v")
    case True
    with v Cons.prems(4) obtain zs' where zs': "js_insert cmp x ys = Inr zs'"
      and zs: "zs = y # zs'"
      by (auto split: sum.splits)
    from Cons.prems(1) have d: "descending_by (insert x (set ys)) cmp k"
      unfolding descending_by_def by simp
    from Cons.prems(2,3) have "sorted_wrt (\<lambda>a b. \<not> js_lt (k a) (k b)) zs'"
      by (intro Cons.IH [OF d _ _ zs']) simp_all
    moreover have "set zs' = insert x (set ys)"
      using js_insert_mset [OF zs'] by (metis set_mset_add_mset_insert set_mset_mset)
    moreover have "\<not> js_lt (k y) (k x)"
      using True sign by (simp add: js_lt_asym)
    ultimately show ?thesis
      using Cons.prems(3) zs by auto
  next
    case False
    with v Cons.prems(4) have zs: "zs = x # y # ys"
      by simp
    from False sign have xy: "\<not> js_lt (k x) (k y)"
      by simp
    have "\<not> js_lt (k x) (k z)" if "z \<in> set ys" for z
    proof -
      from that Cons.prems(3) have "\<not> js_lt (k y) (k z)" by simp
      moreover from Cons.prems(2) have "k y \<noteq> NaN" by simp
      ultimately show ?thesis using xy js_lt_negtrans by blast
    qed
    with xy Cons.prems(3) zs show ?thesis by auto
  qed
qed

lemma js_sort_sorted:
  assumes "descending_by (set xs) cmp k"
    and "\<forall>x\<in>set xs. k x \<noteq> NaN"
    and "js_sort cmp xs = Inr ys"
  shows "sorted_wrt (\<lambda>a b. \<not> js_lt (k a) (k b)) ys"
  using assms
proof (induction xs arbitrary: ys)
  case Nil
  then show ?case by simp
next
  case (Cons x xs)
  from Cons.prems(3) obtain ys' where ys': "js_sort cmp xs = Inr ys'"
    and ys: "js_insert cmp x ys' = Inr ys"
    by (auto split: sum.splits)
  from Cons.prems(1) have d: "descending_by (set xs) cmp k"
    unfolding descending_by_def by simp
  from Cons.prems(2) have sorted: "sorted_wrt (\<lambda>a b. \<not> js_lt (k a) (k b)) ys'"
    by (intro Cons.IH [OF d _ ys']) simp
  have set: "set ys' = set xs"
    using js_sort_mset [OF ys'] by (metis set_mset_mset)
  with Cons.prems(1) have d': "descending_by (insert x (set ys')) cmp k"
    by simp
  from Cons.prems(2) set have "\<forall>y\<in>set ys'. k y \<noteq> NaN"
    by simp
  from js_insert_sorted [OF d' this sorted ys] show ?case .
qed

lemma js_insert_stable:
  assumes "descending_by (insert x (set ys)) cmp k"
    and "js_insert cmp x ys = Inr zs"
  shows "filter (\<lambda>e. k e = v) zs = filter (\<lambda>e. k e = v) (x # ys)"
  using assms
proof (induction ys arbitrary: zs)
  case Nil
  then show ?case by auto
next
  case (Cons y ys)
  from Cons.prems(1) obtain w where w: "cmp x y = Inr w"
    and sign: "js_pos w \<longleftrightarrow> js_lt (k x) (k y)"
    unfolding descending_by_def by fastforce
  show ?case
  proof (cases "js_pos w")
    case True
    with w Cons.prems(2) obtain zs' where zs': "js_insert cmp x ys = Inr zs'"
      and zs: "zs = y # zs'"
      by (auto split: sum.splits)
    from Cons.prems(1) have d: "descending_by (insert x (set ys)) cmp k"
      unfolding descending_by_def by simp
    from True sign have "k x \<noteq> k y"
      using js_lt_irrefl by auto
    with Cons.IH [OF d zs'] zs show ?thesis
      by auto
  next
    case False
    with w Cons.prems(2) show ?thesis by simp
  qed
qed

lemma js_sort_stable:
  assumes "descending_by (set xs) cmp k"
    and "js_sort cmp xs = Inr ys"
  shows "filter (\<lambda>e. k e = v) ys = filter (\<lambda>e. k e = v) xs"
  using assms
proof (induction xs arbitrary: ys)
  case Nil
  then show ?case by simp
next
  case (Cons x xs)
  from Cons.prems(2) obtain ys' where ys': "js_sort cmp xs = Inr ys'"
    and ys: "js_insert cmp x ys' = Inr ys"
    by (auto split: sum.splits)
  from Cons.prems(1) have d: "descending_by (set xs) cmp k"
    unfolding descending_by_def by simp
  have set: "set ys' = set xs"
    using js_sort_mset [OF ys'] by (metis set_mset_mset)
  with Cons.prems(1) have d': "descending_by (insert x (set ys')) cmp k"
    by simp
  from js_insert_stable [OF d' ys, of v] Cons.IH [OF d ys'] show ?case
    by simp
qed

lemma js_sort_sorted_id:
  assumes "descending_by (set xs) cmp k"
    and "sorted_wrt (\<lambda>a b. \<not> js_lt (k a) (k b)) xs"
  shows "js_sort cmp xs = Inr xs"
  using assms
proof (induction xs)
  case Nil
  show ?case by simp
next
  case (Cons x xs)
  from Cons.prems(1) have d: "descending_by (set xs) cmp k"
    unfolding descending_by_def by simp
  from Cons.prems(2) have rest: "js_sort cmp xs = Inr xs"
    by (intro Cons.IH [OF d]) simp
  show ?case
  proof (cases xs)
    case Nil
    then show ?thesis by simp
  next
    case (Cons y ys)
    from Cons.prems(1) \<open>xs = y # ys\<close> obtain v where v: "cmp x y = Inr v"
      and sign: "js_pos v \<longleftrightarrow> js_lt (k x) (k y)"
      unfolding descending_by_def by fastforce
    from Cons.prems(2) \<open>xs = y # ys\<close> have "\<not> js_lt (k x) (k y)"
      by simp
    with v sign rest \<open>xs = y # ys\<close> show ?thesis
      by simp
  qed
qed

section \<open>The order of the recent transfers\<close>

lemma by_amount_desc_descending:
  assumes "\<forall>ev\<in>set es. data ev \<noteq> None"
  shows "descending_by (set es) by_amount_desc decoded_amount"
  unfolding descending_by_def
proof (intro ballI)
  fix a b assume a: "a \<in> set es" and b: "b \<in> set es"
  from assms a have "data a \<noteq> None" by (rule bspec)
  then obtain da where da: "data a = Some da" by blast
  from assms b have "data b \<noteq> None" by (rule bspec)
  then obtain db where db: "data b = Some db" by blast
  have sign: "js_pos (js_sub (amount_of db) (amount_of da)) \<longleftrightarrow> js_lt (amount_of da) (amount_of db)"
    using amount_of_ok [of da] amount_of_ok [of db] by (rule js_pos_sub)
  have cmp: "by_amount_desc a b = Inr (js_sub (amount_of db) (amount_of da))"
    by (simp add: by_amount_desc_def da db)
  have keys: "decoded_amount a = amount_of da" "decoded_amount b = amount_of db"
    by (simp_all add: decoded_amount_def da db)
  show "\<exists>v. by_amount_desc a b = Inr v
      \<and> (js_pos v \<longleftrightarrow> js_lt (decoded_amount a) (decoded_amount b))"
    unfolding cmp keys using sign by blast
qed

text \<open>
  C1, as stated, fails: the recent-transfers view does not keep the order of the
  response. Of two events, the newer one first as the API returns them, the older one
  is stored first when its amount is the larger.
\<close>

theorem recent_transfers_resorted:
  "transfers
     (UsdcTransfers_getUsdcTransfers
        (Events [transfer_event 1700000012 wallet_A wallet_B ''0x0F4240'',
                 transfer_event 1700000000 wallet_C wallet_D ''0x1E8480''])
        \<lparr>loading = True, isRefreshing = False, transfers = []\<rparr>)
   = [transfer_event 1700000000 wallet_C wallet_D ''0x1E8480'',
      transfer_event 1700000012 wallet_A wallet_B ''0x0F4240'']
   \<and> [transfer_event 1700000000 wallet_C wallet_D ''0x1E8480'',
        transfer_event 1700000012 wallet_A wallet_B ''0x0F4240'']
     \<noteq> [transfer_event 1700000012 wallet_A wallet_B ''0x0F4240'',
         transfer_event 1700000000 wallet_C wallet_D ''0x1E8480'']
   \<and> decoded_amount (transfer_event 1700000012 wallet_A wallet_B ''0x0F4240'') = Fin 1
   \<and> decoded_amount (transfer_event 1700000000 wallet_C wallet_D ''0x1E8480'') = Fin 2"
proof -
  have a1: "amount_of ''0x0F4240'' = Fin 1" and a2: "amount_of ''0x1E8480'' = Fin 2"
    by code_simp+
  have sub: "js_sub (Fin 2) (Fin 1) = Fin 1"
    by code_simp
  have "sortedTransfers
          (Events [transfer_event 1700000012 wallet_A wallet_B ''0x0F4240'',
                   transfer_event 1700000000 wallet_C wallet_D ''0x1E8480''])
        = Inr [transfer_event 1700000000 wallet_C wallet_D ''0x1E8480'',
               transfer_event 1700000012 wallet_A wallet_B ''0x0F4240'']"
    by (simp add: sortedTransfers_def by_amount_desc_def transfer_event_def a1 a2 sub)
  moreover have "transfer_event 1700000000 wallet_C wallet_D ''0x1E8480''
      \<noteq> transfer_event 1700000012 wallet_A wallet_B ''0x0F4240''"
    by (simp add: transfer_event_def)
  ultimately show ?thesis
    by (simp add: UsdcTransfers_getUsdcTransfers_def decoded_amount_def a1 a2
        transfer_event_def)
qed

text \<open>
  C1, amended. For every response whose events all have a data field, the list that the
  recent-transfers view stores has the same events as the response. When moreover every
  decoded amount is a number (no data field reads as \<open>NaN\<close>), the list is in descending
  order of decoded amount: no event comes before one of a larger amount, and events of
  the same amount keep the order of the response among themselves. With a \<open>NaN\<close>
  amount the comparison is inconsistent and nothing is stated of the order.
\<close>

theorem transfers_sorted_by_amount:
  assumes "\<forall>ev\<in>set es. data ev \<noteq> None"
  shows "\<exists>ts. sortedTransfers (Events es) = Inr ts
          \<and> UsdcTransfers_getUsdcTransfers (Events es) s
              = s\<lparr>transfers := ts, loading := False, isRefreshing := False\<rparr>
          \<and> mset ts = mset es
          \<and> ((\<forall>ev\<in>set es. decoded_amount ev \<noteq> NaN) \<longrightarrow>
               sorted_wrt (\<lambda>a b. \<not> js_lt (decoded_amount a) (decoded_amount b)) ts
             \<and> (\<forall>v. filter (\<lambda>e. decoded_amount e = v) ts
                    = filter (\<lambda>e. decoded_amount e = v) es))"
proof -
  note d = by_amount_desc_descending [OF assms]
  from js_sort_returns [OF d] obtain ts where ts: "js_sort by_amount_desc es = Inr ts" ..
  then have sorted: "sortedTransfers (Events es) = Inr ts"
    by (simp add: sortedTransfers_def)
  then have run: "UsdcTransfers_getUsdcTransfers (Events es) s
              = s\<lparr>transfers := ts, loading := False, isRefreshing := False\<rparr>"
    by (simp add: UsdcTransfers_getUsdcTransfers_def)
  have stable: "\<forall>v. filter (\<lambda>e. decoded_amount e = v) ts = filter (\<lambda>e. decoded_amount e = v) es"
    using js_sort_stable [OF d ts] by blast
  have desc: "sorted_wrt (\<lambda>a b. \<not> js_lt (decoded_amount a) (decoded_amount b)) ts"
    if "\<forall>ev\<in>set es. decoded_amount ev \<noteq> NaN"
    using js_sort_sorted [OF d that ts] .
  from sorted run js_sort_mset [OF ts] stable desc show ?thesis
    by blast
qed

theorem transfers_sorted_by_amount_witness:
  "list_all (\<lambda>ev. data ev \<noteq> None)
     [transfer_event 1700000012 wallet_A wallet_B ''0x0F4240'',
      transfer_event 1700000000 wallet_C wallet_D ''0x1E8480'']
   \<and> list_all (\<lambda>ev. decoded_amount ev \<noteq> NaN)
     [transfer_event 1700000012 wallet_A wallet_B ''0x0F4240'',
      transfer_event 1700000000 wallet_C wallet_D ''0x1E8480'']
   \<and> (\<exists>ts. sortedTransfers
              (Events [transfer_event 1700000012 wallet_A wallet_B ''0x0F4240'',
                       transfer_event 1700000000 wallet_C wallet_D ''0x1E8480'']) = Inr ts
          \<and> mset ts = mset [transfer_event 1700000012 wallet_A wallet_B ''0x0F4240'',
                             transfer_event 1700000000 wallet_C wallet_D ''0x1E8480'']
          \<and> sorted_wrt (\<lambda>a b. \<not> js_lt (decoded_amount a) (decoded_amount b)) ts
          \<and> filter (\<lambda>e. decoded_amount e = Fin 2) ts
              = [transfer_event 1700000000 wallet_C wallet_D ''0x1E8480''])"
proof -
  let ?es = "[transfer_event 1700000012 wallet_A wallet_B ''0x0F4240'',
              transfer_event 1700000000 wallet_C wallet_D ''0x1E8480'']"
  have a1: "amount_of ''0x0F4240'' = Fin 1" and a2: "amount_of ''0x1E8480'' = Fin 2"
    by code_simp+
  have h: "\<forall>ev\<in>set ?es. data ev \<noteq> None"
    by (simp add: transfer_event_def)
  have n: "\<forall>ev\<in>set ?es. decoded_amount ev \<noteq> NaN"
    by (simp add: transfer_event_def decoded_amount_def a1 a2)
  have f: "filter (\<lambda>e. decoded_amount e = Fin 2) ?es
      = [transfer_event 1700000000 wallet_C wallet_D ''0x1E8480'']"
    by (simp add: transfer_event_def decoded_amount_def a1 a2)
  from transfers_sorted_by_amount [OF h] n
  have "\<exists>ts. sortedTransfers (Events ?es) = Inr ts
          \<and> mset ts = mset ?es
          \<and> sorted_wrt (\<lambda>a b. \<not> js_lt (decoded_amount a) (decoded_amount b)) ts
          \<and> filter (\<lambda>e. decoded_amount e = Fin 2) ts = filter (\<lambda>e. decoded_amount e = Fin 2) ?es"
    by blast
  with h n show ?thesis
    unfolding f by (simp only: list_all_iff)
qed

section \<open>The ten largest wallets\<close>

lemma values_map_set: "set (map snd (map_set m k v)) \<subseteq> insert v (set (map snd m))"
  by (induction m k v rule: map_set.induct) auto

lemma map_get_value: "map_get m a = Some w \<Longrightarrow> w \<in> set (map snd m)"
  unfolding map_get_def by (induction m) (auto split: if_splits)

lemma update_wallet_totals_ok:
  assumes "\<forall>w\<in>set (map snd m). js_ok (totalAmount w)"
  shows "\<forall>w\<in>set (map snd (update_wallet m a amt)). js_ok (totalAmount w)"
proof -
  define zero where
    "zero = \<lparr>address = a, totalAmount = Fin 0, transferCount = 0, averageAmount = Fin 0\<rparr>"
  define m1 where "m1 = (if \<not> map_has m a then map_set m a zero else m)"
  have m1: "\<forall>w\<in>set (map snd m1). js_ok (totalAmount w)"
  proof
    fix w assume "w \<in> set (map snd m1)"
    then have "w = zero \<or> w \<in> set (map snd m)"
      using values_map_set [of m a zero] by (auto simp: m1_def split: if_splits)
    with assms show "js_ok (totalAmount w)"
      by (auto simp: zero_def on_grid_0)
  qed
  have unfold: "update_wallet m a amt =
      (case map_get m1 a of
         None \<Rightarrow> m1
       | Some w \<Rightarrow>
           map_set m1 a
             (w\<lparr>totalAmount := js_add (totalAmount w) amt,
                transferCount := transferCount w + 1,
                averageAmount :=
                  js_div (js_add (totalAmount w) amt) (Fin (of_nat (transferCount w + 1)))\<rparr>))"
    unfolding update_wallet_def Let_def m1_def zero_def by (rule refl)
  show ?thesis
  proof (cases "map_get m1 a")
    case None
    then have "update_wallet m a amt = m1"
      by (simp add: unfold)
    with m1 show ?thesis by simp
  next
    case (Some w)
    define w' where "w' = w\<lparr>totalAmount := js_add (totalAmount w) amt,
        transferCount := transferCount w + 1,
        averageAmount := js_div (js_add (totalAmount w) amt) (Fin (of_nat (transferCount w + 1)))\<rparr>"
    from Some have upd: "update_wallet m a amt = map_set m1 a w'"
      by (simp add: unfold w'_def)
    show ?thesis
    proof
      fix v assume "v \<in> set (map snd (update_wallet m a amt))"
      then have "v = w' \<or> v \<in> set (map snd m1)"
        using values_map_set [of m1 a w'] upd by auto
      with m1 show "js_ok (totalAmount v)"
        by (auto simp: w'_def js_add_ok)
    qed
  qed
qed

lemma record_event_totals_ok:
  assumes "record_event m event = Inr m'"
    and "\<forall>w\<in>set (map snd m). js_ok (totalAmount w)"
  shows "\<forall>w\<in>set (map snd m'). js_ok (totalAmount w)"
proof -
  from assms(1) obtain d ts where "data event = Some d" and "topics event = Some ts"
    and "2 < length ts"
    by (auto simp: record_event_def split: option.splits if_splits)
  from record_event_decoded [OF this, of m] assms(1)
  have "m' = update_wallet (update_wallet m (''0x'' @ slice_from 26 (ts ! 1)) (amount_of d))
                  (''0x'' @ slice_from 26 (ts ! 2)) (amount_of d)"
    by simp
  with update_wallet_totals_ok [OF update_wallet_totals_ok [OF assms(2)]] show ?thesis
    by blast
qed

lemma record_events_totals_ok:
  assumes "record_events m es = Inr m'"
    and "\<forall>w\<in>set (map snd m). js_ok (totalAmount w)"
  shows "\<forall>w\<in>set (map snd m'). js_ok (totalAmount w)"
  using assms
proof (induction es arbitrary: m)
  case Nil
  then show ?case by simp
next
  case (Cons e es)
  from Cons.prems(1) obtain m1 where m1: "record_event m e = Inr m1"
    and rest: "record_events m1 es = Inr m'"
    by (auto split: sum.splits)
  from record_event_totals_ok [OF m1 Cons.prems(2)] Cons.IH [OF rest] show ?case
    by blast
qed

lemma by_volume_desc_descending:
  assumes "\<forall>w\<in>A. js_ok (totalAmount w)"
  shows "descending_by A by_volume_desc totalAmount"
  unfolding descending_by_def
proof (intro ballI)
  fix a b assume "a \<in> A" and "b \<in> A"
  with assms have "js_ok (totalAmount a)" and "js_ok (totalAmount b)"
    by simp_all
  then have "js_pos (js_sub (totalAmount b) (totalAmount a))
      \<longleftrightarrow> js_lt (totalAmount a) (totalAmount b)"
    by (rule js_pos_sub)
  then show "\<exists>v. by_volume_desc a b = Inr v
      \<and> (js_pos v \<longleftrightarrow> js_lt (totalAmount a) (totalAmount b))"
    by (simp add: by_volume_desc_def)
qed

lemma strictly_descending:
  assumes "sorted_wrt (\<lambda>a b. \<not> js_lt (k a) (k b)) ys"
    and "distinct (map k ys)"
    and "\<forall>y\<in>set ys. k y \<noteq> NaN"
  shows "sorted_wrt (\<lambda>a b. js_lt (k b) (k a)) ys"
  using assms
proof (induction ys)
  case Nil
  show ?case by simp
next
  case (Cons y ys)
  have "js_lt (k z) (k y)" if "z \<in> set ys" for z
  proof -
    from that Cons.prems have "\<not> js_lt (k y) (k z)" "k y \<noteq> k z" "k y \<noteq> NaN" "k z \<noteq> NaN"
      by auto
    then show ?thesis
      using js_lt_connex by blast
  qed
  with Cons show ?case by simp
qed

lemma weakly_descending:
  "sorted_wrt (\<lambda>a b. js_lt (k b) (k a)) ys \<Longrightarrow> sorted_wrt (\<lambda>a b. \<not> js_lt (k a) (k b)) ys"
  by (induction ys) (auto dest: js_lt_asym)

text \<open>
  C5. When the events of a response aggregate to 15 addresses whose totals are pairwise
  different numbers, the wallet aggregator returns exactly 10 summaries, in strictly
  descending order of \<open>totalAmount\<close>, all of them among the 15, and each of the five left
  out has a smaller total than each of the ten returned. When the 15 totals are strictly
  decreasing in the order in which the addresses were first seen, the ten returned are
  the first ten.
\<close>

theorem top_ten_wallets:
  assumes "record_events [] es = Inr m"
    and "length m = 15"
    and "distinct (map totalAmount (map snd m))"
    and "\<forall>w\<in>set (map snd m). totalAmount w \<noteq> NaN"
  shows "\<exists>top. sortedWallets (Events es) = Inr top
           \<and> length top = 10
           \<and> sorted_wrt (\<lambda>a b. js_lt (totalAmount b) (totalAmount a)) top
           \<and> set top \<subseteq> set (map snd m)
           \<and> (\<forall>w\<in>set (map snd m) - set top. \<forall>t\<in>set top.
                 js_lt (totalAmount w) (totalAmount t))
           \<and> (sorted_wrt (\<lambda>a b. js_lt (totalAmount b) (totalAmount a)) (map snd m) \<longrightarrow>
                 top = take 10 (map snd m))"
proof -
  define ws where "ws = map snd m"
  have ok: "\<forall>w\<in>set ws. js_ok (totalAmount w)"
    unfolding ws_def by (rule record_events_totals_ok [OF assms(1)]) simp
  note d = by_volume_desc_descending [OF ok]
  from js_sort_returns [OF d] obtain ys where ys: "js_sort by_volume_desc ws = Inr ys" ..
  note perm = js_sort_mset [OF ys]
  from perm have set: "set ys = set ws"
    by (metis set_mset_mset)
  from perm have len: "length ys = 15"
    using assms(2) by (metis length_map size_mset ws_def)
  from assms(2) have "es \<noteq> []"
    using assms(1) by auto
  then have received: "received_events (Events es) = Inr es"
    by (simp add: received_events_def)
  have result: "sortedWallets (Events es) = Inr (take 10 ys)"
    using ys by (simp add: sortedWallets_def received assms(1) ws_def)
  have weak: "sorted_wrt (\<lambda>a b. \<not> js_lt (totalAmount a) (totalAmount b)) ys"
    using assms(4) by (intro js_sort_sorted [OF d _ ys]) (simp add: ws_def)
  have "mset (map totalAmount ys) = mset (map totalAmount ws)"
    using perm by simp
  then have "distinct (map totalAmount ys)"
    using assms(3) by (metis mset_eq_imp_distinct_iff ws_def)
  with weak have strict: "sorted_wrt (\<lambda>a b. js_lt (totalAmount b) (totalAmount a)) ys"
    using assms(4) set by (intro strictly_descending) (simp_all add: ws_def)
  have split: "sorted_wrt (\<lambda>a b. js_lt (totalAmount b) (totalAmount a)) (take 10 ys @ drop 10 ys)"
    using strict by simp
  have c1: "length (take 10 ys) = 10"
    using len by simp
  have c2: "sorted_wrt (\<lambda>a b. js_lt (totalAmount b) (totalAmount a)) (take 10 ys)"
    using split by (simp only: sorted_wrt_append)
  have c3: "set (take 10 ys) \<subseteq> set (map snd m)"
    using set set_take_subset [of 10 ys] by (simp add: ws_def)
  have c4: "\<forall>w\<in>set (map snd m) - set (take 10 ys). \<forall>t\<in>set (take 10 ys).
                 js_lt (totalAmount w) (totalAmount t)"
  proof (intro ballI)
    fix w t assume w: "w \<in> set (map snd m) - set (take 10 ys)" and t: "t \<in> set (take 10 ys)"
    have "set ys = set (take 10 ys) \<union> set (drop 10 ys)"
      by (metis append_take_drop_id set_append)
    with w set have "w \<in> set (drop 10 ys)"
      by (auto simp: ws_def)
    with t split show "js_lt (totalAmount w) (totalAmount t)"
      by (auto simp only: sorted_wrt_append)
  qed
  have c5: "take 10 ys = take 10 (map snd m)"
    if "sorted_wrt (\<lambda>a b. js_lt (totalAmount b) (totalAmount a)) (map snd m)"
  proof -
    from that have "sorted_wrt (\<lambda>a b. \<not> js_lt (totalAmount a) (totalAmount b)) ws"
      unfolding ws_def by (rule weakly_descending)
    from js_sort_sorted_id [OF d this] ys show ?thesis
      by (simp add: ws_def)
  qed
  from result c1 c2 c3 c4 c5 show ?thesis
    by blast
qed
theorem top_ten_wallets_witness:
  "record_events [] fifteen_self_transfers = Inr fifteen_wallets
   \<and> length fifteen_wallets = 15
   \<and> distinct (map totalAmount (map snd fifteen_wallets))
   \<and> list_all (\<lambda>w. totalAmount w \<noteq> NaN) (map snd fifteen_wallets)
   \<and> sorted_wrt (\<lambda>a b. js_lt (totalAmount b) (totalAmount a)) (map snd fifteen_wallets)
   \<and> sortedWallets (Events fifteen_self_transfers) = Inr (take 10 (map snd fifteen_wallets))
   \<and> map totalAmount (take 10 (map snd fifteen_wallets))
       = [Fin 30, Fin 28, Fin 26, Fin 24, Fin 22, Fin 20, Fin 18, Fin 16, Fin 14, Fin 12]"
proof -
  have h1: "record_events [] fifteen_self_transfers = Inr fifteen_wallets"
    by code_simp
  have h2: "length fifteen_wallets = 15"
    by code_simp
  have h3: "distinct (map totalAmount (map snd fifteen_wallets))"
    by code_simp
  have h4: "\<forall>w\<in>set (map snd fifteen_wallets). totalAmount w \<noteq> NaN"
    by code_simp
  have h5: "sorted_wrt (\<lambda>a b. js_lt (totalAmount b) (totalAmount a)) (map snd fifteen_wallets)"
    by code_simp
  have h6: "map totalAmount (take 10 (map snd fifteen_wallets))
       = [Fin 30, Fin 28, Fin 26, Fin 24, Fin 22, Fin 20, Fin 18, Fin 16, Fin 14, Fin 12]"
    by code_simp
  from top_ten_wallets [OF h1 h2 h3 h4] h5
  have "sortedWallets (Events fifteen_self_transfers) = Inr (take 10 (map snd fifteen_wallets))"
    by blast
  with h1 h2 h3 h4 h5 h6 show ?thesis
    by (simp only: list_all_iff)
qed

section \<open>Buckets of a minute\<close>

lemma js_sort_total_insert:
  "\<forall>x y. \<exists>v. cmp x y = Inr v \<Longrightarrow> \<exists>zs. js_insert cmp x ys = Inr zs"
proof (induction ys)
  case Nil
  show ?case by simp
next
  case (Cons y ys)
  then obtain v zs where "cmp x y = Inr v" and "js_insert cmp x ys = Inr zs"
    by blast
  then show ?case by simp
qed

lemma js_sort_total:
  assumes "\<forall>x y. \<exists>v. cmp x y = Inr v"
  shows "\<exists>ys. js_sort cmp xs = Inr ys \<and> mset ys = mset xs"
proof (induction xs)
  case Nil
  show ?case by simp
next
  case (Cons x xs)
  then obtain ys where ys: "js_sort cmp xs = Inr ys" by blast
  from js_sort_total_insert [OF assms, of x ys] obtain zs
    where zs: "js_insert cmp x ys = Inr zs" ..
  with ys have "js_sort cmp (x # xs) = Inr zs" by simp
  with js_sort_mset [OF this] show ?case by blast
qed

lemma filter_singleton_perm:
  assumes "mset ys = mset xs" and "filter P xs = [x]"
  shows "filter P ys = [x]"
proof -
  have "mset (filter P ys) = filter_mset P (mset ys)"
    by (rule mset_filter)
  also have "\<dots> = filter_mset P (mset xs)"
    by (simp only: assms(1))
  also have "\<dots> = mset (filter P xs)"
    by (rule mset_filter [symmetric])
  also have "\<dots> = {#x#}"
    unfolding assms(2) by simp
  finally show ?thesis
    by (simp only: mset_single_iff)
qed

lemma chart_point_decoded:
  "data event \<noteq> None \<Longrightarrow>
   chart_point fmt event =
     Inr \<lparr>timestamp = chart_label fmt event, amount = chart_amount event\<rparr>"
  by (auto simp: chart_point_def chart_label_def chart_amount_def decoded_amount_def Let_def)

lemma js_map_chart_points:
  "\<forall>e\<in>set es. data e \<noteq> None \<Longrightarrow>
   js_map (chart_point fmt) es =
     Inr (map (\<lambda>e. \<lparr>timestamp = chart_label fmt e, amount = chart_amount e\<rparr>) es)"
  by (induction es) (simp_all add: chart_point_decoded)

lemma add_to_existing_None:
  "add_to_existing cur acc = None \<longleftrightarrow> timestamp cur \<notin> set (map timestamp acc)"
  by (induction acc) auto

lemma add_to_existing_Some:
  assumes "add_to_existing cur acc = Some acc'"
  shows "map timestamp acc' = map timestamp acc"
    and "bucket acc' label =
          (if label = timestamp cur
           then map_option (\<lambda>v. js_add v (amount cur)) (bucket acc label)
           else bucket acc label)"
  using assms
proof (induction acc arbitrary: acc')
  case Nil
  { case 1 then show ?case by simp }
  { case 2 then show ?case by simp }
next
  case (Cons item items)
  { case 1
    then show ?case
      using Cons.IH(1) by (auto split: if_splits) }
  { case 2
    then show ?case
      using Cons.IH(2) by (auto simp: bucket_def split: if_splits) }
qed

lemma bucket_None: "bucket ps label = None \<longleftrightarrow> label \<notin> set (map timestamp ps)"
  by (induction ps) (auto simp: bucket_def)

lemma bucket_append:
  "bucket (ps @ qs) label = (case bucket ps label of None \<Rightarrow> bucket qs label | Some v \<Rightarrow> Some v)"
  by (induction ps) (auto simp: bucket_def)

lemma by_minute_labels:
  "map timestamp (by_minute acc cur) =
     (if timestamp cur \<in> set (map timestamp acc) then map timestamp acc
      else map timestamp acc @ [timestamp cur])"
proof (cases "add_to_existing cur acc")
  case None
  then show ?thesis
    using add_to_existing_None [of cur acc] by (simp add: by_minute_def)
next
  case (Some acc')
  then have "timestamp cur \<in> set (map timestamp acc)"
    using add_to_existing_None [of cur acc] by auto
  with Some add_to_existing_Some(1) [OF Some] show ?thesis
    by (simp add: by_minute_def)
qed

lemma by_minute_bucket:
  "bucket (by_minute acc cur) label =
     (if label = timestamp cur
      then (case bucket acc label of
              None \<Rightarrow> Some (amount cur)
            | Some v \<Rightarrow> Some (js_add v (amount cur)))
      else bucket acc label)"
proof (cases "add_to_existing cur acc")
  case None
  then have absent: "bucket acc (timestamp cur) = None"
    using add_to_existing_None [of cur acc] bucket_None [of acc "timestamp cur"] by simp
  have single: "bucket [cur] l = (if l = timestamp cur then Some (amount cur) else None)" for l
    by (auto simp: bucket_def)
  from None have "by_minute acc cur = acc @ [cur]"
    by (simp add: by_minute_def)
  then show ?thesis
    using absent by (simp add: bucket_append single split: option.splits)
next
  case (Some acc')
  then have "timestamp cur \<in> set (map timestamp acc)"
    using add_to_existing_None [of cur acc] by auto
  then obtain v where v: "bucket acc (timestamp cur) = Some v"
    using bucket_None [of acc "timestamp cur"] by auto
  from Some have "by_minute acc cur = acc'"
    by (simp add: by_minute_def)
  with add_to_existing_Some(2) [OF Some, of label] v show ?thesis
    by auto
qed

lemma by_minute_distinct:
  "distinct (map timestamp acc) \<Longrightarrow> distinct (map timestamp (by_minute acc cur))"
  by (simp add: by_minute_labels)

lemma foldl_by_minute_distinct:
  "distinct (map timestamp acc) \<Longrightarrow> distinct (map timestamp (foldl by_minute acc ps))"
  by (induction ps arbitrary: acc) (simp_all add: by_minute_distinct)

lemma foldl_by_minute_other:
  "\<forall>p\<in>set ps. timestamp p \<noteq> label \<Longrightarrow> bucket (foldl by_minute acc ps) label = bucket acc label"
  by (induction ps arbitrary: acc) (auto simp: by_minute_bucket)

lemma filter_eq_Cons_split:
  assumes "filter P xs = y # ys"
  shows "\<exists>us vs. xs = us @ y # vs \<and> (\<forall>u\<in>set us. \<not> P u) \<and> P y \<and> filter P vs = ys"
  using assms by (auto simp: filter_eq_Cons_iff)

lemma foldl_by_minute_two:
  assumes "filter (\<lambda>p. timestamp p = label) ps = [p1, p2]"
  shows "bucket (foldl by_minute [] ps) label = Some (js_add (amount p1) (amount p2))"
proof -
  from filter_eq_Cons_split [OF assms] obtain us vs where ps: "ps = us @ p1 # vs"
    and us: "\<forall>u\<in>set us. timestamp u \<noteq> label" and p1: "timestamp p1 = label"
    and vs: "filter (\<lambda>p. timestamp p = label) vs = [p2]"
    by blast
  from filter_eq_Cons_split [OF vs] obtain ws xs where vs': "vs = ws @ p2 # xs"
    and ws: "\<forall>u\<in>set ws. timestamp u \<noteq> label" and p2: "timestamp p2 = label"
    and xs: "filter (\<lambda>p. timestamp p = label) xs = []"
    by blast
  from xs have xs': "\<forall>u\<in>set xs. timestamp u \<noteq> label"
    by (simp add: filter_empty_conv)
  define a1 where "a1 = foldl by_minute [] us"
  define a2 where "a2 = by_minute a1 p1"
  define a3 where "a3 = foldl by_minute a2 ws"
  define a4 where "a4 = by_minute a3 p2"
  have fold: "foldl by_minute [] ps = foldl by_minute a4 xs"
    by (simp add: ps vs' a1_def a2_def a3_def a4_def)
  have "bucket a1 label = None"
    unfolding a1_def using foldl_by_minute_other [OF us, of "[]"] by (simp add: bucket_def)
  then have "bucket a2 label = Some (amount p1)"
    unfolding a2_def by (simp add: by_minute_bucket p1)
  then have "bucket a3 label = Some (amount p1)"
    unfolding a3_def by (simp add: foldl_by_minute_other [OF ws])
  then have "bucket a4 label = Some (js_add (amount p1) (amount p2))"
    unfolding a4_def by (simp add: by_minute_bucket p2)
  then show ?thesis
    unfolding fold by (simp add: foldl_by_minute_other [OF xs'])
qed

lemma single_bucket:
  assumes "distinct (map timestamp ps)" and "bucket ps label = Some v"
  shows "filter (\<lambda>p. timestamp p = label) ps = [\<lparr>timestamp = label, amount = v\<rparr>]"
  using assms
proof (induction ps)
  case Nil
  then show ?case by (simp add: bucket_def)
next
  case (Cons p ps)
  show ?case
  proof (cases "timestamp p = label")
    case True
    with Cons.prems(2) have "amount p = v"
      by (simp add: bucket_def)
    moreover have "\<forall>q\<in>set ps. timestamp q \<noteq> label"
    proof
      fix q assume "q \<in> set ps"
      then have "timestamp q \<in> set (map timestamp ps)" by simp
      moreover from Cons.prems(1) have "timestamp p \<notin> set (map timestamp ps)" by simp
      ultimately show "timestamp q \<noteq> label" using True by metis
    qed
    ultimately have "amount p = v" and "\<forall>q\<in>set ps. timestamp q \<noteq> label"
      by simp_all
    with True show ?thesis
      by (simp add: filter_empty_conv)
  next
    case False
    with Cons show ?thesis
      by (simp add: bucket_def)
  qed
qed
lemma map_of_increment:
  "map_of (increment k kvs) =
     (map_of kvs)(k \<mapsto> (case map_of kvs k of None \<Rightarrow> 1 | Some n \<Rightarrow> n + 1))"
  by (induction k kvs rule: increment.induct) (auto simp: fun_eq_iff)

lemma keys_increment:
  "map fst (increment k kvs) =
     (if k \<in> set (map fst kvs) then map fst kvs else map fst kvs @ [k])"
  by (induction k kvs rule: increment.induct) auto

lemma foldl_increment_distinct:
  "distinct (map fst acc) \<Longrightarrow> distinct (map fst (foldl (\<lambda>acc e. increment (f e) acc) acc es))"
  by (induction es arbitrary: acc) (simp_all add: keys_increment)

lemma foldl_increment_other:
  "\<forall>e\<in>set es. f e \<noteq> label \<Longrightarrow>
   map_of (foldl (\<lambda>acc e. increment (f e) acc) acc es) label = map_of acc label"
  by (induction es arbitrary: acc) (auto simp: map_of_increment)

lemma foldl_increment_two:
  assumes "filter (\<lambda>e. f e = label) es = [e1, e2]"
  shows "map_of (foldl (\<lambda>acc e. increment (f e) acc) [] es) label = Some 2"
proof -
  let ?step = "\<lambda>acc e. increment (f e) acc"
  from filter_eq_Cons_split [OF assms] obtain us vs where es: "es = us @ e1 # vs"
    and us: "\<forall>u\<in>set us. f u \<noteq> label" and e1: "f e1 = label"
    and vs: "filter (\<lambda>e. f e = label) vs = [e2]"
    by blast
  from filter_eq_Cons_split [OF vs] obtain ws xs where vs': "vs = ws @ e2 # xs"
    and ws: "\<forall>u\<in>set ws. f u \<noteq> label" and e2: "f e2 = label"
    and xs: "filter (\<lambda>e. f e = label) xs = []"
    by blast
  from xs have xs': "\<forall>u\<in>set xs. f u \<noteq> label"
    by (simp add: filter_empty_conv)
  define a1 where "a1 = foldl ?step [] us"
  define a2 where "a2 = increment (f e1) a1"
  define a3 where "a3 = foldl ?step a2 ws"
  define a4 where "a4 = increment (f e2) a3"
  have fold: "foldl ?step [] es = foldl ?step a4 xs"
    by (simp add: es vs' a1_def a2_def a3_def a4_def)
  have "map_of a1 label = None"
    unfolding a1_def using foldl_increment_other [OF us, of "[]"] by simp
  then have "map_of a2 label = Some 1"
    unfolding a2_def by (simp add: map_of_increment e1)
  then have "map_of a3 label = Some 1"
    unfolding a3_def by (simp add: foldl_increment_other [OF ws])
  then have "map_of a4 label = Some 2"
    unfolding a4_def by (simp add: map_of_increment e2)
  then show ?thesis
    unfolding fold by (simp add: foldl_increment_other [OF xs'])
qed

lemma single_entry:
  assumes "distinct (map fst kvs)" and "map_of kvs label = Some n"
  shows "filter (\<lambda>v. minute v = label) (map (\<lambda>(m, v). \<lparr>minute = m, volume = v\<rparr>) kvs)
           = [\<lparr>minute = label, volume = n\<rparr>]"
  using assms
proof (induction kvs)
  case Nil
  then show ?case by simp
next
  case (Cons kv kvs)
  obtain k v where kv: "kv = (k, v)" by (cases kv)
  show ?case
  proof (cases "k = label")
    case True
    with Cons.prems(2) kv have "v = n" by simp
    moreover have "\<forall>q\<in>set kvs. fst q \<noteq> label"
    proof
      fix q assume "q \<in> set kvs"
      then have "fst q \<in> set (map fst kvs)" by simp
      moreover from Cons.prems(1) kv have "k \<notin> set (map fst kvs)" by simp
      ultimately show "fst q \<noteq> label" using True by metis
    qed
    ultimately show ?thesis
      using True kv by (auto simp: filter_empty_conv)
  next
    case False
    with Cons kv show ?thesis by simp
  qed
qed

text \<open>
  C6, as stated, fails in the volume chart: the value of the bucket is not the sum of the
  two decoded amounts. The view rounds each amount to two decimals before it adds
  (\<open>Number(amount.toFixed(2))\<close>, line 65). Two events of the same minute, each of
  4000 raw units (0.004 USDC), give a bucket of value 0, while the sum of the two decoded
  amounts is 0.008.
\<close>

theorem volume_bucket_rounds_each_amount:
  "filter (\<lambda>e. chart_label utc_label e = ''22:13'')
        [transfer_event 1700000000 wallet_A wallet_B ''0x0FA0'',
         transfer_event 1700000030 wallet_C wallet_D ''0x0FA0'']
      = [transfer_event 1700000000 wallet_A wallet_B ''0x0FA0'',
         transfer_event 1700000030 wallet_C wallet_D ''0x0FA0'']
   \<and> decoded_amount (transfer_event 1700000000 wallet_A wallet_B ''0x0FA0'')
       = Fin (1152921504606847 / 288230376151711744)
   \<and> decoded_amount (transfer_event 1700000030 wallet_C wallet_D ''0x0FA0'')
       = Fin (1152921504606847 / 288230376151711744)
   \<and> js_add (decoded_amount (transfer_event 1700000000 wallet_A wallet_B ''0x0FA0''))
            (decoded_amount (transfer_event 1700000030 wallet_C wallet_D ''0x0FA0''))
       = Fin (1152921504606847 / 144115188075855872)
   \<and> formattedData utc_label utc_getTime
        (Events [transfer_event 1700000000 wallet_A wallet_B ''0x0FA0'',
                 transfer_event 1700000030 wallet_C wallet_D ''0x0FA0''])
       = Inr [\<lparr>timestamp = ''22:13'', amount = Fin 0\<rparr>]
   \<and> Fin (1152921504606847 / 144115188075855872) \<noteq> Fin 0"
proof -
  let ?e1 = "transfer_event 1700000000 wallet_A wallet_B ''0x0FA0''"
  let ?e2 = "transfer_event 1700000030 wallet_C wallet_D ''0x0FA0''"
  have labels: "filter (\<lambda>e. chart_label utc_label e = ''22:13'') [?e1, ?e2] = [?e1, ?e2]"
    by code_simp
  have d1: "decoded_amount ?e1 = Fin (1152921504606847 / 288230376151711744)"
    by code_simp
  have d2: "decoded_amount ?e2 = Fin (1152921504606847 / 288230376151711744)"
    by code_simp
  have sum: "js_add (Fin (1152921504606847 / 288230376151711744))
                    (Fin (1152921504606847 / 288230376151711744))
       = Fin (1152921504606847 / 144115188075855872)"
    by code_simp
  have chart: "formattedData utc_label utc_getTime (Events [?e1, ?e2])
       = Inr [\<lparr>timestamp = ''22:13'', amount = Fin 0\<rparr>]"
    by code_simp
  have differ: "Fin (1152921504606847 / 144115188075855872) \<noteq> Fin 0"
    by simp
  from labels d1 d2 sum chart differ show ?thesis
    by (simp only: simp_thms)
qed

text \<open>
  C6, amended. In both time-bucket aggregators, two events of a response that map to the
  same label, and are the only ones that do, are merged into one bucket. In the volume
  chart (every event having a data field) the chart has one point of that label, whose
  value is the sum, in the numbers of the language, of the two amounts as that view
  decodes them: each decoded amount rounded to two decimals first
  (\<open>Number(amount.toFixed(2))\<close>), not the decoded amounts themselves. In the count chart
  it has one point of that label, whose value is 2.
\<close>

theorem same_minute_merged:
  "((\<forall>e\<in>set es. data e \<noteq> None) \<and> filter (\<lambda>e. chart_label fmt e = label) es = [e1, e2] \<longrightarrow>
      (\<exists>ps. formattedData fmt getTime (Events es) = Inr ps
           \<and> filter (\<lambda>p. timestamp p = label) ps
               = [\<lparr>timestamp = label,
                    amount = js_add (chart_amount e1) (chart_amount e2)\<rparr>]))
   \<and> (filter (\<lambda>e. minute_label tza e = label) es = [e1, e2] \<longrightarrow>
      (\<exists>vs. sortedData tza (Events es) = Inr vs
           \<and> filter (\<lambda>v. minute v = label) vs = [\<lparr>minute = label, volume = 2\<rparr>]))"
proof (intro conjI impI)
  assume "(\<forall>e\<in>set es. data e \<noteq> None) \<and> filter (\<lambda>e. chart_label fmt e = label) es = [e1, e2]"
  then have present: "\<forall>e\<in>set es. data e \<noteq> None"
    and two: "filter (\<lambda>e. chart_label fmt e = label) es = [e1, e2]"
    by simp_all
  let ?point = "\<lambda>e. \<lparr>timestamp = chart_label fmt e, amount = chart_amount e\<rparr>"
  from two have "es \<noteq> []" by auto
  then have received: "received_events (Events es) = Inr es"
    by (simp add: received_events_def)
  have "filter (\<lambda>p. timestamp p = label) (map ?point es) = map ?point [e1, e2]"
    using two by (simp add: filter_map comp_def)
  then have "bucket (foldl by_minute [] (map ?point es)) label
      = Some (js_add (chart_amount e1) (chart_amount e2))"
    using foldl_by_minute_two [of label "map ?point es" "?point e1" "?point e2"] by simp
  moreover have "distinct (map timestamp (foldl by_minute [] (map ?point es)))"
    by (rule foldl_by_minute_distinct) simp
  ultimately have one: "filter (\<lambda>p. timestamp p = label) (foldl by_minute [] (map ?point es))
      = [\<lparr>timestamp = label, amount = js_add (chart_amount e1) (chart_amount e2)\<rparr>]"
    by (intro single_bucket)
  have "\<forall>x y. \<exists>v. chronological getTime x y = Inr v"
    by (simp add: chronological_def)
  from js_sort_total [OF this, of "foldl by_minute [] (map ?point es)"] obtain ps
    where ps: "js_sort (chronological getTime) (foldl by_minute [] (map ?point es)) = Inr ps"
      and perm: "mset ps = mset (foldl by_minute [] (map ?point es))"
    by blast
  have "formattedData fmt getTime (Events es) = Inr ps"
    by (simp add: formattedData_def received js_map_chart_points [OF present] ps)
  with filter_singleton_perm [OF perm one]
  show "\<exists>ps. formattedData fmt getTime (Events es) = Inr ps
           \<and> filter (\<lambda>p. timestamp p = label) ps
               = [\<lparr>timestamp = label,
                    amount = js_add (chart_amount e1) (chart_amount e2)\<rparr>]"
    by blast
next
  assume two: "filter (\<lambda>e. minute_label tza e = label) es = [e1, e2]"
  from two have "es \<noteq> []" by auto
  then have received: "received_events (Events es) = Inr es"
    by (simp add: received_events_def)
  let ?points = "map (\<lambda>(m, v). \<lparr>minute = m, volume = v\<rparr>) (volumeByMinute tza es)"
  have "map_of (volumeByMinute tza es) label = Some 2"
    unfolding volumeByMinute_def by (rule foldl_increment_two [OF two])
  moreover have "distinct (map fst (volumeByMinute tza es))"
    unfolding volumeByMinute_def by (rule foldl_increment_distinct) simp
  ultimately have one: "filter (\<lambda>v. minute v = label) ?points = [\<lparr>minute = label, volume = 2\<rparr>]"
    by (intro single_entry)
  have "\<forall>x y. \<exists>v. by_time_of_day x y = Inr v"
    by (simp add: by_time_of_day_def)
  from js_sort_total [OF this, of ?points] obtain vs
    where vs: "js_sort by_time_of_day ?points = Inr vs" and perm: "mset vs = mset ?points"
    by blast
  have "sortedData tza (Events es) = Inr vs"
    by (simp add: sortedData_def received vs)
  with filter_singleton_perm [OF perm one]
  show "\<exists>vs. sortedData tza (Events es) = Inr vs
           \<and> filter (\<lambda>v. minute v = label) vs = [\<lparr>minute = label, volume = 2\<rparr>]"
    by blast
qed

theorem same_minute_merged_witness:
  "list_all (\<lambda>e. data e \<noteq> None)
     [transfer_event 1700000000 wallet_A wallet_B ''0x12D687'',
      transfer_event 1700000030 wallet_C wallet_D ''0x23CACE'']
   \<and> filter (\<lambda>e. chart_label utc_label e = ''22:13'')
        [transfer_event 1700000000 wallet_A wallet_B ''0x12D687'',
         transfer_event 1700000030 wallet_C wallet_D ''0x23CACE'']
      = [transfer_event 1700000000 wallet_A wallet_B ''0x12D687'',
         transfer_event 1700000030 wallet_C wallet_D ''0x23CACE'']
   \<and> filter (\<lambda>e. minute_label utc_offset e = ''22:13'')
        [transfer_event 1700000000 wallet_A wallet_B ''0x12D687'',
         transfer_event 1700000030 wallet_C wallet_D ''0x23CACE'']
      = [transfer_event 1700000000 wallet_A wallet_B ''0x12D687'',
         transfer_event 1700000030 wallet_C wallet_D ''0x23CACE'']
   \<and> decoded_amount (transfer_event 1700000000 wallet_A wallet_B ''0x12D687'')
       = round64 (1234567 / 1000000)
   \<and> decoded_amount (transfer_event 1700000030 wallet_C wallet_D ''0x23CACE'')
       = round64 (2345678 / 1000000)
   \<and> chart_amount (transfer_event 1700000000 wallet_A wallet_B ''0x12D687'')
       = round64 (123 / 100)
   \<and> chart_amount (transfer_event 1700000030 wallet_C wallet_D ''0x23CACE'')
       = round64 (235 / 100)
   \<and> js_add (round64 (123 / 100)) (round64 (235 / 100)) = round64 (358 / 100)
   \<and> (\<exists>ps. formattedData utc_label utc_getTime
              (Events [transfer_event 1700000000 wallet_A wallet_B ''0x12D687'',
                       transfer_event 1700000030 wallet_C wallet_D ''0x23CACE'']) = Inr ps
          \<and> filter (\<lambda>p. timestamp p = ''22:13'') ps
              = [\<lparr>timestamp = ''22:13'', amount = round64 (358 / 100)\<rparr>])
   \<and> (\<exists>vs. sortedData utc_offset
              (Events [transfer_event 1700000000 wallet_A wallet_B ''0x12D687'',
                       transfer_event 1700000030 wallet_C wallet_D ''0x23CACE'']) = Inr vs
          \<and> filter (\<lambda>v. minute v = ''22:13'') vs = [\<lparr>minute = ''22:13'', volume = 2\<rparr>])"
proof -
  let ?e1 = "transfer_event 1700000000 wallet_A wallet_B ''0x12D687''"
  let ?e2 = "transfer_event 1700000030 wallet_C wallet_D ''0x23CACE''"
  have h1: "\<forall>e\<in>set [?e1, ?e2]. data e \<noteq> None"
    by (simp add: transfer_event_def)
  have h2: "filter (\<lambda>e. chart_label utc_label e = ''22:13'') [?e1, ?e2] = [?e1, ?e2]"
    by code_simp
  have h3: "filter (\<lambda>e. minute_label utc_offset e = ''22:13'') [?e1, ?e2] = [?e1, ?e2]"
    by code_simp
  have d1: "decoded_amount ?e1 = round64 (1234567 / 1000000)"
    by code_simp
  have d2: "decoded_amount ?e2 = round64 (2345678 / 1000000)"
    by code_simp
  have a1: "chart_amount ?e1 = round64 (123 / 100)"
    by code_simp
  have a2: "chart_amount ?e2 = round64 (235 / 100)"
    by code_simp
  have sum: "js_add (round64 (123 / 100)) (round64 (235 / 100)) = round64 (358 / 100)"
    by code_simp
  from same_minute_merged [of "[?e1, ?e2]" utc_label "''22:13''" ?e1 ?e2 utc_getTime utc_offset]
    h1 h2 h3
  have "(\<exists>ps. formattedData utc_label utc_getTime (Events [?e1, ?e2]) = Inr ps
          \<and> filter (\<lambda>p. timestamp p = ''22:13'') ps
              = [\<lparr>timestamp = ''22:13'', amount = js_add (chart_amount ?e1) (chart_amount ?e2)\<rparr>])
       \<and> (\<exists>vs. sortedData utc_offset (Events [?e1, ?e2]) = Inr vs
          \<and> filter (\<lambda>v. minute v = ''22:13'') vs = [\<lparr>minute = ''22:13'', volume = 2\<rparr>])"
    by blast
  then have "(\<exists>ps. formattedData utc_label utc_getTime (Events [?e1, ?e2]) = Inr ps
          \<and> filter (\<lambda>p. timestamp p = ''22:13'') ps
              = [\<lparr>timestamp = ''22:13'', amount = round64 (358 / 100)\<rparr>])
       \<and> (\<exists>vs. sortedData utc_offset (Events [?e1, ?e2]) = Inr vs
          \<and> filter (\<lambda>v. minute v = ''22:13'') vs = [\<lparr>minute = ''22:13'', volume = 2\<rparr>])"
    unfolding a1 a2 sum .
  with h1 h2 h3 d1 d2 a1 a2 sum show ?thesis
    by (simp only: list_all_iff)
qed

section \<open>Failures and empty responses\<close>


lemma received_events_Inl:
  "received_events r = Inl e \<longleftrightarrow>
     (\<exists>m. r = Rejected m \<and> e = Error m)
   \<or> ((r = NoList \<or> r = Events []) \<and> e = Error ''No transfer data received'')
   \<or> (r = NotArray \<and> e = TypeError)"
  by (cases r) (auto simp: received_events_def)














text \<open>
  C3, as stated, fails twice. In the recent-transfers view an empty array is no error: it
  is sorted and stored, and nothing is shown. In an aggregating view the error is set
  but the result set is left as it was, which after an earlier successful run is not
  empty.
\<close>

theorem empty_response_counterexample:
  "sortedTransfers (Events []) = Inr []
   \<and> UsdcTransfers_getUsdcTransfers (Events [])
         \<lparr>loading = True, isRefreshing = False, transfers = []\<rparr>
       = \<lparr>loading = False, isRefreshing = False, transfers = []\<rparr>
   \<and> UsdcTransfers_shown_error
         (UsdcTransfers_getUsdcTransfers (Events [])
            \<lparr>loading = True, isRefreshing = False, transfers = []\<rparr>) = None
   \<and> walletStats
         (getTopWallets (Events [])
            \<lparr>loading = False, isRefreshing = False, error = None,
             walletStats = [\<lparr>address = wallet_A, totalAmount = Fin 10, transferCount = 1,
                             averageAmount = Fin 10\<rparr>]\<rparr>)
       = [\<lparr>address = wallet_A, totalAmount = Fin 10, transferCount = 1,
            averageAmount = Fin 10\<rparr>]"
  by (simp add: sortedTransfers_def UsdcTransfers_getUsdcTransfers_def
      UsdcTransfers_shown_error_def getTopWallets_def sortedWallets_def received_events_def)

text \<open>
  C3, amended. On a response whose \<open>data\<close> array is empty, each of the three
  aggregating views sets the error \<open>No transfer data received\<close>, clears both loading
  flags and leaves its result set as it was (empty on the first load); the
  recent-transfers view sets no error, stores the empty list and clears both flags. In
  every view the run ends in a state: nothing is thrown past the view.
\<close>

theorem empty_response:
  "UsdcTransferChart_getUsdcTransfers fmt getTime (Events []) chart
     = chart\<lparr>error := Some (Error ''No transfer data received''),
             loading := False, isRefreshing := False\<rparr>
   \<and> getVolumeData tza (Events []) counts
     = counts\<lparr>error := Some (Error ''No transfer data received''),
              loading := False, isRefreshing := False\<rparr>
   \<and> getTopWallets (Events []) wallets
     = wallets\<lparr>error := Some (Error ''No transfer data received''),
               loading := False, isRefreshing := False\<rparr>
   \<and> UsdcTransfers_getUsdcTransfers (Events []) recent
     = recent\<lparr>transfers := [], loading := False, isRefreshing := False\<rparr>"
  by (simp add: UsdcTransferChart_getUsdcTransfers_def formattedData_def
      getVolumeData_def sortedData_def getTopWallets_def sortedWallets_def
      received_events_def UsdcTransfers_getUsdcTransfers_def sortedTransfers_def)

end
